theory Spec2Isabelle
  imports Main "HOL-Library.AList" "HOL-Library.Sublist"
begin

section \<open>The file system the program runs on\<close>

text \<open>
  The program of \<^verbatim>\<open>456FileFix.py\<close> (and its variant \<^verbatim>\<open>test_4NSIKfilefix.py\<close>) only talks
  to the file system: it lists directories, tests the kind of an entry, creates
  directories, moves, reads and deletes regular files and removes empty directories.

  A file system is an association list from absolute locations (the list of path
  components below the root) to entries. The order of the list is the order in which
  \<^verbatim>\<open>os.listdir\<close> enumerates, so any enumeration order can be represented. The root
  \<open>[]\<close> is always a directory and has no entry of its own.

  Scope of the model: a POSIX file system on one device, no symbolic or hard links, a
  component \<^verbatim>\<open>..\<close> is a name like any other (it is not resolved to the parent),
  permissions are reduced to one \<open>readable\<close> flag per regular file, and nothing else
  changes the file system while the program runs. File contents are strings of bytes.

  The program itself holds one file open for the whole run: the log file of its
  \<^verbatim>\<open>logging.FileHandler\<close>. Whatever is logged is appended to that file through the open
  handle, wherever the file has been moved to in the meantime. The flag \<open>open_log\<close> of
  a regular file says that it is this file.
\<close>

type_synonym path = "string list"

datatype entry = File (content: string) (readable: bool) (open_log: bool) | Dir

type_synonym fs = "(path \<times> entry) list"

datatype error =
    KeyError
  | FileNotFoundError
  | NotADirectoryError
  | IsADirectoryError
  | FileExistsError
  | PermissionError
  | OSError
  | ShutilError
  | Unmodelled

definition lookup :: "fs \<Rightarrow> path \<Rightarrow> entry option" where
  "lookup fs p = (if p = [] then Some Dir else map_of fs p)"

text \<open>\<^verbatim>\<open>Path.exists()\<close>, \<^verbatim>\<open>Path.is_file()\<close>, \<^verbatim>\<open>Path.is_dir()\<close>: none of them raises.\<close>

definition path_exists :: "fs \<Rightarrow> path \<Rightarrow> bool" where
  "path_exists fs p = (lookup fs p \<noteq> None)"

definition is_file :: "fs \<Rightarrow> path \<Rightarrow> bool" where
  "is_file fs p = (case lookup fs p of Some (File c r l) \<Rightarrow> True | _ \<Rightarrow> False)"

definition is_dir :: "fs \<Rightarrow> path \<Rightarrow> bool" where
  "is_dir fs p = (lookup fs p = Some Dir)"

text \<open>The names of the entries directly inside \<open>p\<close>, in enumeration order.\<close>

definition names_in :: "fs \<Rightarrow> path \<Rightarrow> string list" where
  "names_in fs p = map (\<lambda>(k, e). last k) (filter (\<lambda>(k, e). k \<noteq> [] \<and> butlast k = p) fs)"

text \<open>
  What the operating system answers when it has to walk into \<open>p\<close> as a directory:
  \<open>None\<close> when \<open>p\<close> is a directory, \<^verbatim>\<open>ENOTDIR\<close> when \<open>p\<close> or a location above it is a
  regular file, \<^verbatim>\<open>ENOENT\<close> when it is missing.
\<close>

definition dir_status :: "fs \<Rightarrow> path \<Rightarrow> error option" where
  "dir_status fs p =
     (case lookup fs p of
        Some Dir \<Rightarrow> None
      | Some (File c r l) \<Rightarrow> Some NotADirectoryError
      | None \<Rightarrow> (if list_ex (is_file fs) (prefixes p) then Some NotADirectoryError
                 else Some FileNotFoundError))"

text \<open>\<^verbatim>\<open>os.listdir(path)\<close> for a path object.\<close>

definition os_listdir :: "fs \<Rightarrow> path \<Rightarrow> error + string list" where
  "os_listdir fs p = (case dir_status fs p of Some e \<Rightarrow> Inl e | None \<Rightarrow> Inr (names_in fs p))"

text \<open>\<^verbatim>\<open>os.mkdir(path)\<close>: the new directory is enumerated last in its parent.\<close>

definition os_mkdir :: "fs \<Rightarrow> path \<Rightarrow> error + fs" where
  "os_mkdir fs p =
     (if path_exists fs p then Inl FileExistsError
      else case dir_status fs (butlast p) of
             Some e \<Rightarrow> Inl e
           | None \<Rightarrow> Inr (fs @ [(p, Dir)]))"

text \<open>
  \<^verbatim>\<open>Path.mkdir(parents=True, exist_ok=...)\<close>, as pathlib implements it: try
  \<^verbatim>\<open>os.mkdir\<close>; on \<^verbatim>\<open>FileNotFoundError\<close> make the parent (with \<^verbatim>\<open>exist_ok=True\<close>) and
  try again without \<^verbatim>\<open>parents\<close>; any other \<^verbatim>\<open>OSError\<close> is re-raised unless \<^verbatim>\<open>exist_ok\<close>
  holds and the path is a directory. The root is its own parent.
\<close>

function path_mkdir :: "bool \<Rightarrow> fs \<Rightarrow> path \<Rightarrow> error + fs" where
  "path_mkdir exist_ok fs p =
     (case os_mkdir fs p of
        Inr fs' \<Rightarrow> Inr fs'
      | Inl e \<Rightarrow>
          (if e = FileNotFoundError then
             (if p = [] then Inl e
              else case path_mkdir True fs (butlast p) of
                     Inl e' \<Rightarrow> Inl e'
                   | Inr fs' \<Rightarrow>
                       (case os_mkdir fs' p of
                          Inr fs'' \<Rightarrow> Inr fs''
                        | Inl e' \<Rightarrow>
                            (if e' \<noteq> FileNotFoundError \<and> exist_ok \<and> is_dir fs' p
                             then Inr fs' else Inl e')))
           else if exist_ok \<and> is_dir fs p then Inr fs else Inl e))"
  by pat_completeness auto
termination
  by (relation "measure (\<lambda>(ok, fs, p). length p)") auto

text \<open>
  \<^verbatim>\<open>os.rename(src, dst)\<close> for a source that is a regular file or is missing. An existing
  regular file at \<open>dst\<close> is replaced (and keeps its place in the enumeration), a new name
  is enumerated last. Renaming a file onto itself does nothing. Renaming a directory is
  not modelled: the program only ever moves what \<^verbatim>\<open>is_file()\<close> accepted. The entry
  moves as it is, so an open handle stays with the file; a file that is replaced is
  gone, with its handle.
\<close>

definition os_rename :: "fs \<Rightarrow> path \<Rightarrow> path \<Rightarrow> error + fs" where
  "os_rename fs src dst =
     (case lookup fs src of
        None \<Rightarrow> Inl FileNotFoundError
      | Some Dir \<Rightarrow> Inl Unmodelled
      | Some (File c r l) \<Rightarrow>
          (case dir_status fs (butlast dst) of
             Some e \<Rightarrow> Inl e
           | None \<Rightarrow>
               (if is_dir fs dst then Inl IsADirectoryError
                else if src = dst then Inr fs
                else Inr (AList.update dst (File c r l) (AList.delete src fs)))))"

text \<open>
  \<^verbatim>\<open>shutil.move(src, dst)\<close>: when \<open>dst\<close> is an existing directory the source is moved
  \<^emph>\<open>into\<close> it under its own base name, and \<^verbatim>\<open>shutil.Error\<close> is raised if that name is
  taken; otherwise the source is renamed to \<open>dst\<close>. (When \<^verbatim>\<open>os.rename\<close> fails, shutil
  falls back to copy-and-unlink, which on one device fails with the same error.)
\<close>

definition shutil_move :: "fs \<Rightarrow> path \<Rightarrow> path \<Rightarrow> error + fs" where
  "shutil_move fs src dst =
     (if is_dir fs src then Inl Unmodelled
      else if is_dir fs dst then
        (let real_dst = dst @ [last src]
         in if path_exists fs real_dst then Inl ShutilError
            else os_rename fs src real_dst)
      else os_rename fs src dst)"

text \<open>\<^verbatim>\<open>open(path, "rb").read()\<close>\<close>

definition read_bytes :: "fs \<Rightarrow> path \<Rightarrow> error + string" where
  "read_bytes fs p =
     (case lookup fs p of
        None \<Rightarrow> Inl FileNotFoundError
      | Some Dir \<Rightarrow> Inl IsADirectoryError
      | Some (File c r l) \<Rightarrow> (if r then Inr c else Inl PermissionError))"

text \<open>\<^verbatim>\<open>os.remove(path)\<close>\<close>

definition os_remove :: "fs \<Rightarrow> path \<Rightarrow> error + fs" where
  "os_remove fs p =
     (case lookup fs p of
        None \<Rightarrow> Inl FileNotFoundError
      | Some Dir \<Rightarrow> Inl IsADirectoryError
      | Some (File c r l) \<Rightarrow> Inr (AList.delete p fs))"

text \<open>\<^verbatim>\<open>os.rmdir(path)\<close> and \<^verbatim>\<open>Path.rmdir()\<close>\<close>

definition os_rmdir :: "fs \<Rightarrow> path \<Rightarrow> error + fs" where
  "os_rmdir fs p =
     (case lookup fs p of
        None \<Rightarrow> Inl FileNotFoundError
      | Some (File c r l) \<Rightarrow> Inl NotADirectoryError
      | Some Dir \<Rightarrow>
          (if p = [] \<or> names_in fs p \<noteq> [] then Inl OSError
           else Inr (AList.delete p fs)))"

text \<open>
  Writing through a handle opened for appending: the text goes to the end of the file
  that the handle belongs to, wherever that file is, and to no other entry.
\<close>

definition appended :: "string \<Rightarrow> entry \<Rightarrow> entry" where
  "appended text e =
     (case e of File c r l \<Rightarrow> (if l then File (c @ text) r l else File c r l) | Dir \<Rightarrow> Dir)"

definition emit :: "string \<Rightarrow> fs \<Rightarrow> fs" where
  "emit text fs = map (\<lambda>(p, e). (p, appended text e)) fs"

section \<open>Paths as the program writes them\<close>

text \<open>
  The program builds paths with pathlib: \<^verbatim>\<open>Path(download_dir) / folder / file\<close>. A pure
  path is a flag (does it start at the root?) and its parts; parsing a string splits it
  at \<^verbatim>\<open>/\<close> and drops empty parts and \<^verbatim>\<open>.\<close> parts. Joining with an absolute operand
  yields the operand. The operating system resolves a relative path against the
  working directory of the process.
\<close>

datatype pure_path = PurePath (anchored: bool) (parts: "string list")

fun split_slash :: "string \<Rightarrow> string \<Rightarrow> string list" where
  "split_slash acc [] = [acc]"
| "split_slash acc (c # cs) =
     (if c = CHR ''/'' then acc # split_slash [] cs else split_slash (acc @ [c]) cs)"

definition parts_of :: "string \<Rightarrow> string list" where
  "parts_of s = filter (\<lambda>p. p \<noteq> [] \<and> p \<noteq> ''.'') (split_slash [] s)"

definition Path :: "string \<Rightarrow> pure_path" where
  "Path s = PurePath (s \<noteq> [] \<and> hd s = CHR ''/'') (parts_of s)"

definition truediv :: "pure_path \<Rightarrow> string \<Rightarrow> pure_path" where
  "truediv p s =
     (let q = Path s
      in if anchored q then q else PurePath (anchored p) (parts p @ parts q))"

definition locate :: "path \<Rightarrow> pure_path \<Rightarrow> path" where
  "locate cwd p = (if anchored p then parts p else cwd @ parts p)"

text \<open>
  \<^verbatim>\<open>os.listdir(s)\<close> for a string: the empty string names nothing
  (\<^verbatim>\<open>FileNotFoundError\<close>), while \<^verbatim>\<open>Path('')\<close> is the working directory.
\<close>

definition os_listdir_str :: "path \<Rightarrow> fs \<Rightarrow> string \<Rightarrow> error + string list" where
  "os_listdir_str cwd fs s =
     (if s = [] then Inl FileNotFoundError else os_listdir fs (locate cwd (Path s)))"

section \<open>The state of a run\<close>

text \<open>
  A run changes the file system and logs what it does. The progress bar does not
  influence any result and is left out. An exception is a value \<open>Inl (e, w)\<close>: the error
  together with the state in which it was raised, since nothing is rolled back.

  The state is the file system together with the records logged so far, which is what
  the \<^verbatim>\<open>StreamHandler\<close> has written to the standard error stream.
\<close>

datatype event =
    Moved string string
  | RemovedDuplicate string string
  | RemovedEmptyFolder string

record world =
  files :: fs
  log :: "event list"

subsection \<open>Logging (lines 17 to 24 of both source files)\<close>

text \<open>
  When the module is loaded, \<^verbatim>\<open>logging.basicConfig\<close> installs two handlers. The
  \<^verbatim>\<open>FileHandler("4NSIKfilefix.log")\<close> opens that file in the working directory for
  appending, creating it (enumerated last) when it is missing, and keeps it open.
  (Whether an existing file may be written to is not modelled.)
\<close>

definition log_name :: string where
  "log_name = ''4NSIKfilefix.log''"

definition configure_logging :: "path \<Rightarrow> fs \<Rightarrow> error + fs" where
  "configure_logging cwd fs =
     (let p = cwd @ [log_name]
      in case lookup fs p of
           Some Dir \<Rightarrow> Inl IsADirectoryError
         | Some (File c r l) \<Rightarrow> Inr (AList.update p (File c r True) fs)
         | None \<Rightarrow>
             (case dir_status fs cwd of
                Some e \<Rightarrow> Inl e
              | None \<Rightarrow> Inr (fs @ [(p, File [] True True)])))"

text \<open>
  The messages of the three \<^verbatim>\<open>logging.info\<close> calls, and a record as the format
  \<^verbatim>\<open>'%(asctime)s - %(levelname)s - %(message)s'\<close> renders it, ended by a newline. The
  time stamp is what the clock says when the record is made; it is a parameter
  \<open>asctime\<close> of the model, a function of the number of records logged before.
\<close>

fun message :: "event \<Rightarrow> string" where
  "message (Moved file folder) = ''Moved '' @ file @ '' to '' @ folder"
| "message (RemovedDuplicate file folder) =
     ''Removed duplicate file '' @ file @ '' from '' @ folder"
| "message (RemovedEmptyFolder folder) = ''Removed empty folder '' @ folder"

definition format_record :: "(nat \<Rightarrow> string) \<Rightarrow> nat \<Rightarrow> event \<Rightarrow> string" where
  "format_record asctime k ev = asctime k @ '' - INFO - '' @ message ev @ [CHR 0x0A]"

text \<open>
  \<^verbatim>\<open>logging.info(...)\<close>: the record goes to both handlers. The file handler writes it
  to the log file and flushes, so the file has the record before the call returns.
\<close>

definition logging_info :: "(nat \<Rightarrow> string) \<Rightarrow> event \<Rightarrow> world \<Rightarrow> world" where
  "logging_info asctime ev w =
     w\<lparr>files := emit (format_record asctime (length (log w)) ev) (files w),
       log := log w @ [ev]\<rparr>"

type_synonym rules = "(string \<times> string list) list"

text \<open>
  \<^verbatim>\<open>collections.Counter\<close>: a missing key counts as zero, \<^verbatim>\<open>c[k] += 1\<close> inserts the key
  last when it is new.
\<close>

type_synonym counter = "(string \<times> nat) list"

definition counter_get :: "counter \<Rightarrow> string \<Rightarrow> nat" where
  "counter_get c k = (case map_of c k of None \<Rightarrow> 0 | Some n \<Rightarrow> n)"

definition counter_incr :: "counter \<Rightarrow> string \<Rightarrow> counter" where
  "counter_incr c k = AList.update k (counter_get c k + 1) c"

section \<open>\<^verbatim>\<open>organize_files\<close> (456FileFix.py)\<close>

text \<open>\<^verbatim>\<open>file.endswith(extension)\<close>\<close>

definition endswith :: "string \<Rightarrow> string \<Rightarrow> bool" where
  "endswith s ext = suffix ext s"

text \<open>
  The inner loop \<^verbatim>\<open>for folder, extensions in folders.items(): if any(...): ...; break\<close>
  selects the first folder, in the order of the mapping, one of whose extensions the
  file name ends with.
\<close>

fun first_match :: "rules \<Rightarrow> string \<Rightarrow> string option" where
  "first_match [] file = None"
| "first_match ((folder, extensions) # rest) file =
     (if list_ex (endswith file) extensions then Some folder else first_match rest file)"

text \<open>The first loop: every configured folder that does not exist is created.\<close>

fun make_folders :: "path \<Rightarrow> string \<Rightarrow> rules \<Rightarrow> fs \<Rightarrow> (error \<times> fs) + fs" where
  "make_folders cwd download_dir [] fs = Inr fs"
| "make_folders cwd download_dir ((folder, extensions) # rest) fs =
     (let folder_path = locate cwd (truediv (Path download_dir) folder)
      in if \<not> path_exists fs folder_path then
           (case path_mkdir False fs folder_path of
              Inl e \<Rightarrow> Inl (e, fs)
            | Inr fs' \<Rightarrow> make_folders cwd download_dir rest fs')
         else make_folders cwd download_dir rest fs)"

text \<open>
  The second loop, over the names that \<^verbatim>\<open>os.listdir(download_dir)\<close> returned. (The
  source lists the directory twice, once for the total of the progress bar and once for
  the loop; nothing happens in between, so the model lists it once.)
\<close>

fun organize_loop ::
  "(nat \<Rightarrow> string) \<Rightarrow> path \<Rightarrow> rules \<Rightarrow> string \<Rightarrow> string list \<Rightarrow> world \<Rightarrow> counter
     \<Rightarrow> (error \<times> world) + (world \<times> counter)"
where
  "organize_loop asctime cwd folders download_dir [] w file_counts = Inr (w, file_counts)"
| "organize_loop asctime cwd folders download_dir (file # rest) w file_counts =
     (let file_path = locate cwd (truediv (Path download_dir) file)
      in if is_file (files w) file_path then
           (case first_match folders file of
              None \<Rightarrow> organize_loop asctime cwd folders download_dir rest w file_counts
            | Some folder \<Rightarrow>
                (let destination_path =
                       locate cwd (truediv (truediv (Path download_dir) folder) file)
                 in case shutil_move (files w) file_path destination_path of
                      Inl e \<Rightarrow> Inl (e, w)
                    | Inr fs' \<Rightarrow>
                        organize_loop asctime cwd folders download_dir rest
                          (logging_info asctime (Moved file folder) (w\<lparr>files := fs'\<rparr>))
                          (counter_incr file_counts folder)))
         else organize_loop asctime cwd folders download_dir rest w file_counts)"

definition organize_files ::
  "(nat \<Rightarrow> string) \<Rightarrow> path \<Rightarrow> rules \<Rightarrow> string \<Rightarrow> world
     \<Rightarrow> (error \<times> world) + (world \<times> counter)"
where
  "organize_files asctime cwd folders download_dir w =
     (case make_folders cwd download_dir folders (files w) of
        Inl (e, fs') \<Rightarrow> Inl (e, w\<lparr>files := fs'\<rparr>)
      | Inr fs' \<Rightarrow>
          (case os_listdir_str cwd fs' download_dir of
             Inl e \<Rightarrow> Inl (e, w\<lparr>files := fs'\<rparr>)
           | Inr names \<Rightarrow>
               organize_loop asctime cwd folders download_dir names (w\<lparr>files := fs'\<rparr>) []))"

section \<open>\<^verbatim>\<open>remove_duplicates\<close> (456FileFix.py)\<close>

text \<open>
  The digest \<^verbatim>\<open>hashlib.sha256(...).hexdigest()\<close> is a parameter \<open>H\<close> of the model: every
  result holds for any function from contents to digests.
\<close>

fun dedup_loop ::
  "(nat \<Rightarrow> string) \<Rightarrow> (string \<Rightarrow> string) \<Rightarrow> path \<Rightarrow> pure_path \<Rightarrow> string \<Rightarrow> string list
     \<Rightarrow> string set \<Rightarrow> world \<Rightarrow> (error \<times> world) + world"
where
  "dedup_loop asctime H cwd folder_path folder [] seen w = Inr w"
| "dedup_loop asctime H cwd folder_path folder (file # rest) seen w =
     (let file_path = locate cwd (truediv folder_path file)
      in if is_file (files w) file_path then
           (case read_bytes (files w) file_path of
              Inl e \<Rightarrow> Inl (e, w)
            | Inr bytes \<Rightarrow>
                (let file_hash = H bytes
                 in if file_hash \<in> seen then
                      (case os_remove (files w) file_path of
                         Inl e \<Rightarrow> Inl (e, w)
                       | Inr fs' \<Rightarrow>
                           dedup_loop asctime H cwd folder_path folder rest seen
                             (logging_info asctime (RemovedDuplicate file folder)
                                (w\<lparr>files := fs'\<rparr>)))
                    else dedup_loop asctime H cwd folder_path folder rest
                           (insert file_hash seen) w))
         else dedup_loop asctime H cwd folder_path folder rest seen w)"

text \<open>The body of the outer loop: the pass over one folder.\<close>

definition dedup_folder ::
  "(nat \<Rightarrow> string) \<Rightarrow> (string \<Rightarrow> string) \<Rightarrow> path \<Rightarrow> string \<Rightarrow> string \<Rightarrow> world
     \<Rightarrow> (error \<times> world) + world"
where
  "dedup_folder asctime H cwd download_dir folder w =
     (let folder_path = truediv (Path download_dir) folder
      in case os_listdir (files w) (locate cwd folder_path) of
           Inl e \<Rightarrow> Inl (e, w)
         | Inr files_list \<Rightarrow> dedup_loop asctime H cwd folder_path folder files_list {} w)"

fun remove_duplicates ::
  "(nat \<Rightarrow> string) \<Rightarrow> (string \<Rightarrow> string) \<Rightarrow> path \<Rightarrow> rules \<Rightarrow> string \<Rightarrow> world
     \<Rightarrow> (error \<times> world) + world"
where
  "remove_duplicates asctime H cwd [] download_dir w = Inr w"
| "remove_duplicates asctime H cwd ((folder, extensions) # rest) download_dir w =
     (case dedup_folder asctime H cwd download_dir folder w of
        Inl x \<Rightarrow> Inl x
      | Inr w' \<Rightarrow> remove_duplicates asctime H cwd rest download_dir w')"

section \<open>\<^verbatim>\<open>clean_up_empty_folders\<close> (456FileFix.py)\<close>

fun cleanup_loop ::
  "(nat \<Rightarrow> string) \<Rightarrow> path \<Rightarrow> string \<Rightarrow> string list \<Rightarrow> world \<Rightarrow> (error \<times> world) + world"
where
  "cleanup_loop asctime cwd download_dir [] w = Inr w"
| "cleanup_loop asctime cwd download_dir (folder # rest) w =
     (let folder_path = locate cwd (truediv (Path download_dir) folder)
      in if is_dir (files w) folder_path then
           (case os_listdir (files w) folder_path of
              Inl e \<Rightarrow> Inl (e, w)
            | Inr inside \<Rightarrow>
                (if inside = [] then
                   (case os_rmdir (files w) folder_path of
                      Inl e \<Rightarrow> Inl (e, w)
                    | Inr fs' \<Rightarrow>
                        cleanup_loop asctime cwd download_dir rest
                          (logging_info asctime (RemovedEmptyFolder folder)
                             (w\<lparr>files := fs'\<rparr>)))
                 else cleanup_loop asctime cwd download_dir rest w))
         else cleanup_loop asctime cwd download_dir rest w)"

definition clean_up_empty_folders ::
  "(nat \<Rightarrow> string) \<Rightarrow> path \<Rightarrow> string \<Rightarrow> world \<Rightarrow> (error \<times> world) + world"
where
  "clean_up_empty_folders asctime cwd download_dir w =
     (case os_listdir_str cwd (files w) download_dir of
        Inl e \<Rightarrow> Inl (e, w)
      | Inr names \<Rightarrow> cleanup_loop asctime cwd download_dir names w)"

section \<open>\<^verbatim>\<open>main\<close> (456FileFix.py)\<close>

text \<open>
  The configuration as \<^verbatim>\<open>load_config\<close> returns it: a JSON object whose keys
  \<^verbatim>\<open>folders\<close> and \<^verbatim>\<open>download_dir\<close> may be absent (\<open>None\<close>); \<^verbatim>\<open>config[...]\<close> raises
  \<^verbatim>\<open>KeyError\<close> then. Parsing the command line and reading the file are outside the
  model. \<^verbatim>\<open>generate_summary\<close> only prints the counts, which the model returns.
\<close>

record config =
  cfg_folders :: "rules option"
  cfg_download_dir :: "string option"

definition main ::
  "(nat \<Rightarrow> string) \<Rightarrow> (string \<Rightarrow> string) \<Rightarrow> path \<Rightarrow> config \<Rightarrow> world
     \<Rightarrow> (error \<times> world) + (world \<times> counter)"
where
  "main asctime H cwd cfg w =
     (case cfg_folders cfg of
        None \<Rightarrow> Inl (KeyError, w)
      | Some folders \<Rightarrow>
          (case cfg_download_dir cfg of
             None \<Rightarrow> Inl (KeyError, w)
           | Some download_dir \<Rightarrow>
               (case organize_files asctime cwd folders download_dir w of
                  Inl x \<Rightarrow> Inl x
                | Inr (w1, file_counts) \<Rightarrow>
                    (case remove_duplicates asctime H cwd folders download_dir w1 of
                       Inl x \<Rightarrow> Inl x
                     | Inr w2 \<Rightarrow>
                         (case clean_up_empty_folders asctime cwd download_dir w2 of
                            Inl x \<Rightarrow> Inl x
                          | Inr w3 \<Rightarrow> Inr (w3, file_counts))))))"

section \<open>The variant of \<^verbatim>\<open>test_4NSIKfilefix.py\<close>\<close>

text \<open>
  The second source file repeats the program with the folders taken relative to the
  working directory of the process: \<^verbatim>\<open>Path(folder)\<close> instead of
  \<^verbatim>\<open>Path(download_dir) / folder\<close>, \<^verbatim>\<open>os.listdir(folder)\<close> on the folder name itself,
  \<^verbatim>\<open>os.listdir()\<close> and \<^verbatim>\<open>os.rmdir(folder)\<close> in the cleanup. The inner loop of
  \<^verbatim>\<open>remove_duplicates\<close> is the same text with \<^verbatim>\<open>Path(folder)\<close> as the folder path.
  Logging is configured and used in the same way.
\<close>

text \<open>\<^verbatim>\<open>os.rmdir(s)\<close> for a string.\<close>

definition os_rmdir_str :: "path \<Rightarrow> fs \<Rightarrow> string \<Rightarrow> error + fs" where
  "os_rmdir_str cwd fs s =
     (if s = [] then Inl FileNotFoundError else os_rmdir fs (locate cwd (Path s)))"

fun t_make_folders :: "path \<Rightarrow> rules \<Rightarrow> fs \<Rightarrow> (error \<times> fs) + fs" where
  "t_make_folders cwd [] fs = Inr fs"
| "t_make_folders cwd ((folder, extensions) # rest) fs =
     (if \<not> path_exists fs (locate cwd (Path folder)) then
        (case path_mkdir False fs (locate cwd (Path folder)) of
           Inl e \<Rightarrow> Inl (e, fs)
         | Inr fs' \<Rightarrow> t_make_folders cwd rest fs')
      else t_make_folders cwd rest fs)"

fun t_organize_loop ::
  "(nat \<Rightarrow> string) \<Rightarrow> path \<Rightarrow> rules \<Rightarrow> string \<Rightarrow> string list \<Rightarrow> world \<Rightarrow> counter
     \<Rightarrow> (error \<times> world) + (world \<times> counter)"
where
  "t_organize_loop asctime cwd folders download_dir [] w file_counts = Inr (w, file_counts)"
| "t_organize_loop asctime cwd folders download_dir (file # rest) w file_counts =
     (let file_path = locate cwd (truediv (Path download_dir) file)
      in if is_file (files w) file_path then
           (case first_match folders file of
              None \<Rightarrow> t_organize_loop asctime cwd folders download_dir rest w file_counts
            | Some folder \<Rightarrow>
                (let destination_path = locate cwd (truediv (Path folder) file)
                 in case shutil_move (files w) file_path destination_path of
                      Inl e \<Rightarrow> Inl (e, w)
                    | Inr fs' \<Rightarrow>
                        t_organize_loop asctime cwd folders download_dir rest
                          (logging_info asctime (Moved file folder) (w\<lparr>files := fs'\<rparr>))
                          (counter_incr file_counts folder)))
         else t_organize_loop asctime cwd folders download_dir rest w file_counts)"

definition t_organize_files ::
  "(nat \<Rightarrow> string) \<Rightarrow> path \<Rightarrow> rules \<Rightarrow> string \<Rightarrow> world
     \<Rightarrow> (error \<times> world) + (world \<times> counter)"
where
  "t_organize_files asctime cwd folders download_dir w =
     (case t_make_folders cwd folders (files w) of
        Inl (e, fs') \<Rightarrow> Inl (e, w\<lparr>files := fs'\<rparr>)
      | Inr fs' \<Rightarrow>
          (case os_listdir_str cwd fs' download_dir of
             Inl e \<Rightarrow> Inl (e, w\<lparr>files := fs'\<rparr>)
           | Inr names \<Rightarrow>
               t_organize_loop asctime cwd folders download_dir names (w\<lparr>files := fs'\<rparr>) []))"

definition t_dedup_folder ::
  "(nat \<Rightarrow> string) \<Rightarrow> (string \<Rightarrow> string) \<Rightarrow> path \<Rightarrow> string \<Rightarrow> world
     \<Rightarrow> (error \<times> world) + world"
where
  "t_dedup_folder asctime H cwd folder w =
     (case os_listdir_str cwd (files w) folder of
        Inl e \<Rightarrow> Inl (e, w)
      | Inr files_list \<Rightarrow> dedup_loop asctime H cwd (Path folder) folder files_list {} w)"

fun t_remove_duplicates ::
  "(nat \<Rightarrow> string) \<Rightarrow> (string \<Rightarrow> string) \<Rightarrow> path \<Rightarrow> rules \<Rightarrow> world
     \<Rightarrow> (error \<times> world) + world"
where
  "t_remove_duplicates asctime H cwd [] w = Inr w"
| "t_remove_duplicates asctime H cwd ((folder, extensions) # rest) w =
     (case t_dedup_folder asctime H cwd folder w of
        Inl x \<Rightarrow> Inl x
      | Inr w' \<Rightarrow> t_remove_duplicates asctime H cwd rest w')"

fun t_cleanup_loop ::
  "(nat \<Rightarrow> string) \<Rightarrow> path \<Rightarrow> string list \<Rightarrow> world \<Rightarrow> (error \<times> world) + world"
where
  "t_cleanup_loop asctime cwd [] w = Inr w"
| "t_cleanup_loop asctime cwd (folder # rest) w =
     (if is_dir (files w) (locate cwd (Path folder)) then
        (case os_listdir_str cwd (files w) folder of
           Inl e \<Rightarrow> Inl (e, w)
         | Inr inside \<Rightarrow>
             (if inside = [] then
                (case os_rmdir_str cwd (files w) folder of
                   Inl e \<Rightarrow> Inl (e, w)
                 | Inr fs' \<Rightarrow>
                     t_cleanup_loop asctime cwd rest
                       (logging_info asctime (RemovedEmptyFolder folder) (w\<lparr>files := fs'\<rparr>)))
              else t_cleanup_loop asctime cwd rest w))
      else t_cleanup_loop asctime cwd rest w)"

definition t_clean_up_empty_folders ::
  "(nat \<Rightarrow> string) \<Rightarrow> path \<Rightarrow> world \<Rightarrow> (error \<times> world) + world"
where
  "t_clean_up_empty_folders asctime cwd w =
     (case os_listdir (files w) cwd of
        Inl e \<Rightarrow> Inl (e, w)
      | Inr names \<Rightarrow> t_cleanup_loop asctime cwd names w)"

definition t_main ::
  "(nat \<Rightarrow> string) \<Rightarrow> (string \<Rightarrow> string) \<Rightarrow> path \<Rightarrow> config \<Rightarrow> world
     \<Rightarrow> (error \<times> world) + (world \<times> counter)"
where
  "t_main asctime H cwd cfg w =
     (case cfg_folders cfg of
        None \<Rightarrow> Inl (KeyError, w)
      | Some folders \<Rightarrow>
          (case cfg_download_dir cfg of
             None \<Rightarrow> Inl (KeyError, w)
           | Some download_dir \<Rightarrow>
               (case t_organize_files asctime cwd folders download_dir w of
                  Inl x \<Rightarrow> Inl x
                | Inr (w1, file_counts) \<Rightarrow>
                    (case t_remove_duplicates asctime H cwd folders w1 of
                       Inl x \<Rightarrow> Inl x
                     | Inr w2 \<Rightarrow>
                         (case t_clean_up_empty_folders asctime cwd w2 of
                            Inl x \<Rightarrow> Inl x
                          | Inr w3 \<Rightarrow> Inr (w3, file_counts))))))"

section \<open>Vocabulary of the properties\<close>

text \<open>
  A name as a file system has it: not empty, not \<^verbatim>\<open>.\<close>, no \<^verbatim>\<open>/\<close> inside. A well-formed
  file system has one entry per location and only such names as components; the
  working directory is a location of the same kind.
\<close>

definition plain_name :: "string \<Rightarrow> bool" where
  "plain_name n = (n \<noteq> [] \<and> n \<noteq> ''.'' \<and> CHR ''/'' \<notin> set n)"

definition plain_path :: "path \<Rightarrow> bool" where
  "plain_path p = list_all plain_name p"

definition wf_fs :: "fs \<Rightarrow> bool" where
  "wf_fs fs = (distinct (map fst fs) \<and> list_all (\<lambda>(k, e). k \<noteq> [] \<and> plain_path k) fs)"

text \<open>
  The model does not resolve \<^verbatim>\<open>..\<close>, so the properties are stated for configurations
  whose download directory and folder names have no \<^verbatim>\<open>..\<close> component.
\<close>

definition dotdot_free :: "string \<Rightarrow> bool" where
  "dotdot_free s = (''..'' \<notin> set (parts_of s))"

definition in_scope :: "string \<Rightarrow> rules \<Rightarrow> bool" where
  "in_scope d rules = (dotdot_free d \<and> list_all (\<lambda>(f, exts). dotdot_free f) rules)"

text \<open>
  The text of a sequence of records, the first of which is record number \<open>k\<close>; and what
  the file handler wrote between two states of a run, the second of which has the log of
  the first as a prefix of its own.
\<close>

fun log_text :: "(nat \<Rightarrow> string) \<Rightarrow> nat \<Rightarrow> event list \<Rightarrow> string" where
  "log_text asctime k [] = []"
| "log_text asctime k (ev # evs) = format_record asctime k ev @ log_text asctime (Suc k) evs"

definition written :: "(nat \<Rightarrow> string) \<Rightarrow> world \<Rightarrow> world \<Rightarrow> string" where
  "written asctime w w' = log_text asctime (length (log w)) (drop (length (log w)) (log w'))"

text \<open>The digest of the regular file at a location, if there is one.\<close>

definition digest_at :: "(string \<Rightarrow> string) \<Rightarrow> fs \<Rightarrow> path \<Rightarrow> string option" where
  "digest_at H fs p = (case lookup fs p of Some (File c r l) \<Rightarrow> Some (H c) | _ \<Rightarrow> None)"

text \<open>The names listed before \<open>n\<close> in a directory.\<close>

definition listed_before :: "fs \<Rightarrow> path \<Rightarrow> string \<Rightarrow> string list" where
  "listed_before fs p n = takeWhile (\<lambda>m. m \<noteq> n) (names_in fs p)"

text \<open>The moves recorded in a log: file name and folder.\<close>

fun moves_of :: "event list \<Rightarrow> (string \<times> string) list" where
  "moves_of [] = []"
| "moves_of (Moved file folder # evs) = (file, folder) # moves_of evs"
| "moves_of (ev # evs) = moves_of evs"

text \<open>
  The two locations every stage works with: the download directory and the directory of
  a configured folder, as the operating system resolves them.
\<close>

abbreviation source_dir :: "path \<Rightarrow> string \<Rightarrow> path" where
  "source_dir cwd d \<equiv> locate cwd (Path d)"

abbreviation folder_dir :: "path \<Rightarrow> string \<Rightarrow> string \<Rightarrow> path" where
  "folder_dir cwd d folder \<equiv> locate cwd (truediv (Path d) folder)"

text \<open>The file named \<open>n\<close> in the download directory is a regular file routed to \<open>f\<close>.\<close>

abbreviation routed :: "path \<Rightarrow> rules \<Rightarrow> string \<Rightarrow> fs \<Rightarrow> string \<Rightarrow> string \<Rightarrow> bool" where
  "routed cwd rules d fs n f \<equiv>
     is_file fs (source_dir cwd d @ [n]) \<and> first_match rules n = Some f"

text \<open>Where \<^verbatim>\<open>shutil.move\<close> puts a file of base name \<open>n\<close> that is sent to \<open>dst\<close>.\<close>

definition landing :: "fs \<Rightarrow> path \<Rightarrow> string \<Rightarrow> path" where
  "landing fs dst n = (if is_dir fs dst then dst @ [n] else dst)"

text \<open>\<open>fs'\<close> is \<open>fs\<close> followed by new directories at locations from \<open>A\<close>.\<close>

definition grows :: "fs \<Rightarrow> path set \<Rightarrow> fs \<Rightarrow> bool" where
  "grows fs A fs' =
     (\<exists>ks. fs' = fs @ map (\<lambda>k. (k, Dir)) ks \<and> set ks \<subseteq> A \<and> distinct ks \<and>
           (\<forall>k\<in>set ks. lookup fs k = None))"

text \<open>
  \<open>is_dup\<close>: the name \<open>n\<close> of the listing \<open>names\<close> is a regular file whose digest was
  seen before the pass reached it. \<open>state_of\<close>: the state in which a stage ended, with or
  without an error. \<open>only_lost\<close>: the second state has the file system of the first
  without some entries, all of which satisfy \<open>P\<close>, and with the records logged in
  between written to the log file. \<open>empty_dir\<close>: a directory without entries.
  \<open>steady\<close>: what is at the location, if it is a regular file, can be read and is not
  the open log file.
\<close>

definition is_dup :: "(string \<Rightarrow> string) \<Rightarrow> fs \<Rightarrow> path \<Rightarrow> string list \<Rightarrow> string set \<Rightarrow> string \<Rightarrow> bool" where
  "is_dup H fs p names seen n =
     (case digest_at H fs (p @ [n]) of
        None \<Rightarrow> False
      | Some h \<Rightarrow> h \<in> seen \<or>
          list_ex (\<lambda>m. digest_at H fs (p @ [m]) = Some h) (takeWhile (\<lambda>m. m \<noteq> n) names))"

text \<open>
  \<open>dup_entry\<close>: the location \<open>q\<close> is an entry of the directory \<open>p\<close>, a regular file
  whose digest an entry listed before it has as well.
\<close>

definition dup_entry :: "(string \<Rightarrow> string) \<Rightarrow> fs \<Rightarrow> path \<Rightarrow> path \<Rightarrow> bool" where
  "dup_entry H fs p q =
     (\<exists>n\<in>set (names_in fs p). q = p @ [n] \<and> is_dup H fs p (names_in fs p) {} n)"

definition state_of :: "(error \<times> world) + world \<Rightarrow> world" where
  "state_of r = (case r of Inl (e, w) \<Rightarrow> w | Inr w \<Rightarrow> w)"

definition only_lost :: "(nat \<Rightarrow> string) \<Rightarrow> world \<Rightarrow> (path \<Rightarrow> bool) \<Rightarrow> world \<Rightarrow> bool" where
  "only_lost asctime w P w' =
     (\<exists>K evs. log w' = log w @ evs \<and>
        files w' = emit (log_text asctime (length (log w)) evs) (AList.restrict (- K) (files w)) \<and>
        (\<forall>k\<in>K. P k))"

abbreviation readable_file :: "fs \<Rightarrow> path \<Rightarrow> bool" where
  "readable_file fs k \<equiv> \<exists>c l. lookup fs k = Some (File c True l)"

definition steady :: "fs \<Rightarrow> path \<Rightarrow> bool" where
  "steady fs p = (case lookup fs p of Some (File c r l) \<Rightarrow> r \<and> \<not> l | _ \<Rightarrow> True)"

definition empty_dir :: "fs \<Rightarrow> path \<Rightarrow> bool" where
  "empty_dir fs k = (is_dir fs k \<and> names_in fs k = [])"

text \<open>The state in which the organize stage ended, with or without an error.\<close>

definition ostate :: "(error \<times> world) + (world \<times> counter) \<Rightarrow> world" where
  "ostate r = (case r of Inl (e, w) \<Rightarrow> w | Inr (w, c) \<Rightarrow> w)"


section \<open>A worked configuration\<close>

text \<open>
  The scenario of the specification: \<^verbatim>\<open>/tmp/src\<close> holds \<^verbatim>\<open>a.jpg\<close>, \<^verbatim>\<open>b.pdf\<close> and
  \<^verbatim>\<open>c.txt\<close>, and \<^verbatim>\<open>/tmp/src/images/a.jpg\<close> exists already with the same bytes.
  \<open>ex_organized\<close> is the state after the organize stage. The program was started in
  the root directory, so loading the module has created the log file there, empty; and
  the clock shows \<open>noon\<close> whenever a record is made.
\<close>

definition noon :: "nat \<Rightarrow> string" where
  "noon k = ''12:00''"

definition ex_rules :: rules where
  "ex_rules = [(''images'', [''.jpg'', ''.png'']), (''docs'', [''.pdf''])]"

definition ex_world :: world where
  "ex_world = \<lparr>files = [([''tmp''], Dir), ([''tmp'', ''src''], Dir),
     ([''tmp'', ''src'', ''images''], Dir),
     ([''tmp'', ''src'', ''images'', ''a.jpg''], File ''AAA'' True False),
     ([''tmp'', ''src'', ''a.jpg''], File ''AAA'' True False),
     ([''tmp'', ''src'', ''b.pdf''], File ''BBB'' True False),
     ([''tmp'', ''src'', ''c.txt''], File ''CCC'' True False),
     ([''4NSIKfilefix.log''], File [] True True)], log = []\<rparr>"

definition ex_organized :: world where
  "ex_organized = \<lparr>files = [([''tmp''], Dir), ([''tmp'', ''src''], Dir),
     ([''tmp'', ''src'', ''images''], Dir),
     ([''tmp'', ''src'', ''images'', ''a.jpg''], File ''AAA'' True False),
     ([''tmp'', ''src'', ''c.txt''], File ''CCC'' True False),
     ([''4NSIKfilefix.log''],
        File (''12:00 - INFO - Moved a.jpg to images'' @ [CHR 0x0A] @
              ''12:00 - INFO - Moved b.pdf to docs'' @ [CHR 0x0A]) True True),
     ([''tmp'', ''src'', ''docs''], Dir),
     ([''tmp'', ''src'', ''docs'', ''b.pdf''], File ''BBB'' True False)],
     log = [Moved ''a.jpg'' ''images'', Moved ''b.pdf'' ''docs'']\<rparr>"

definition ex_counts :: counter where
  "ex_counts = [(''images'', 1), (''docs'', 1)]"

text \<open>The same download directory where the name \<^verbatim>\<open>a.jpg\<close> in \<^verbatim>\<open>images\<close> is a directory.\<close>

definition dir_world :: world where
  "dir_world = \<lparr>files = [([''tmp''], Dir), ([''tmp'', ''src''], Dir),
     ([''tmp'', ''src'', ''images''], Dir),
     ([''tmp'', ''src'', ''images'', ''a.jpg''], Dir),
     ([''tmp'', ''src'', ''a.jpg''], File ''AAA'' True False),
     ([''4NSIKfilefix.log''], File [] True True)], log = []\<rparr>"

definition dir_organized :: world where
  "dir_organized = \<lparr>files = [([''tmp''], Dir), ([''tmp'', ''src''], Dir),
     ([''tmp'', ''src'', ''images''], Dir),
     ([''tmp'', ''src'', ''images'', ''a.jpg''], Dir),
     ([''4NSIKfilefix.log''],
        File (''12:00 - INFO - Moved a.jpg to images'' @ [CHR 0x0A]) True True),
     ([''tmp'', ''src'', ''docs''], Dir),
     ([''tmp'', ''src'', ''images'', ''a.jpg'', ''a.jpg''], File ''AAA'' True False)],
     log = [Moved ''a.jpg'' ''images'']\<rparr>"

text \<open>A rule whose folder is the download directory itself.\<close>

definition dot_rules :: rules where
  "dot_rules = [(''.'', [''.txt''])]"

definition dot_world :: world where
  "dot_world = \<lparr>files = [([''tmp''], Dir), ([''tmp'', ''src''], Dir),
     ([''tmp'', ''src'', ''c.txt''], File ''CCC'' True False),
     ([''4NSIKfilefix.log''], File [] True True)], log = []\<rparr>"

text \<open>The configuration of the scenario, as \<^verbatim>\<open>load_config\<close> returns it.\<close>

definition ex_cfg :: config where
  "ex_cfg = \<lparr>cfg_folders = Some ex_rules, cfg_download_dir = Some ''/tmp/src''\<rparr>"

text \<open>
  A folder \<^verbatim>\<open>docs\<close> whose first file cannot be read and whose other two files have equal
  content; \<open>locked_after\<close> is the state after the organize stage, which only created
  \<^verbatim>\<open>images\<close>.
\<close>

definition locked_world :: world where
  "locked_world = \<lparr>files = [([''tmp''], Dir), ([''tmp'', ''src''], Dir),
     ([''tmp'', ''src'', ''docs''], Dir),
     ([''tmp'', ''src'', ''docs'', ''a.pdf''], File ''X'' False False),
     ([''tmp'', ''src'', ''docs'', ''b.pdf''], File ''Y'' True False),
     ([''tmp'', ''src'', ''docs'', ''c.pdf''], File ''Y'' True False),
     ([''4NSIKfilefix.log''], File [] True True)], log = []\<rparr>"

definition locked_after :: world where
  "locked_after = \<lparr>files = [([''tmp''], Dir), ([''tmp'', ''src''], Dir),
     ([''tmp'', ''src'', ''docs''], Dir),
     ([''tmp'', ''src'', ''docs'', ''a.pdf''], File ''X'' False False),
     ([''tmp'', ''src'', ''docs'', ''b.pdf''], File ''Y'' True False),
     ([''tmp'', ''src'', ''docs'', ''c.pdf''], File ''Y'' True False),
     ([''4NSIKfilefix.log''], File [] True True),
     ([''tmp'', ''src'', ''images''], Dir)], log = []\<rparr>"

text \<open>A folder with two files of equal content, and the state after the stage.\<close>

definition dup_world :: world where
  "dup_world = \<lparr>files = [([''tmp''], Dir), ([''tmp'', ''src''], Dir),
     ([''tmp'', ''src'', ''docs''], Dir),
     ([''tmp'', ''src'', ''docs'', ''x.pdf''], File ''S'' True False),
     ([''tmp'', ''src'', ''docs'', ''y.pdf''], File ''T'' True False),
     ([''tmp'', ''src'', ''docs'', ''z.pdf''], File ''S'' True False),
     ([''4NSIKfilefix.log''], File [] True True)], log = []\<rparr>"

definition dup_after :: world where
  "dup_after = \<lparr>files = [([''tmp''], Dir), ([''tmp'', ''src''], Dir),
     ([''tmp'', ''src'', ''docs''], Dir),
     ([''tmp'', ''src'', ''docs'', ''x.pdf''], File ''S'' True False),
     ([''tmp'', ''src'', ''docs'', ''y.pdf''], File ''T'' True False),
     ([''4NSIKfilefix.log''],
        File (''12:00 - INFO - Removed duplicate file z.pdf from docs'' @ [CHR 0x0A]) True True)],
     log = [RemovedDuplicate ''z.pdf'' ''docs'']\<rparr>"

text \<open>
  A download directory with an empty directory, a directory holding a file, and a
  directory holding only an empty directory.
\<close>

definition clean_world :: world where
  "clean_world = \<lparr>files = [([''tmp''], Dir), ([''tmp'', ''src''], Dir),
     ([''tmp'', ''src'', ''images''], Dir),
     ([''tmp'', ''src'', ''docs''], Dir),
     ([''tmp'', ''src'', ''docs'', ''b.pdf''], File ''BBB'' True False),
     ([''tmp'', ''src'', ''outer''], Dir),
     ([''tmp'', ''src'', ''outer'', ''inner''], Dir),
     ([''tmp'', ''src'', ''c.txt''], File ''CCC'' True False),
     ([''4NSIKfilefix.log''], File [] True True)], log = []\<rparr>"

text \<open>
  Further configurations: a folder with a nested name, no folders at all, a folder named
  by the empty string; and the states some runs end in.
\<close>

definition nested_cfg :: config where
  "nested_cfg = \<lparr>cfg_folders = Some [(''docs/pdf'', [''.pdf''])],
                  cfg_download_dir = Some ''/tmp/src''\<rparr>"

definition empty_cfg :: config where
  "empty_cfg = \<lparr>cfg_folders = Some [], cfg_download_dir = Some ''/tmp/src''\<rparr>"

definition dot_cleaned :: world where
  "dot_cleaned = \<lparr>files = [([''tmp''], Dir), ([''tmp'', ''src''], Dir),
     ([''tmp'', ''src'', ''c.txt''], File ''CCC'' True False),
     ([''4NSIKfilefix.log''],
        File (''12:00 - INFO - Removed empty folder images'' @ [CHR 0x0A] @
              ''12:00 - INFO - Removed empty folder docs'' @ [CHR 0x0A]) True True)],
     log = [RemovedEmptyFolder ''images'', RemovedEmptyFolder ''docs'']\<rparr>"

definition nested_after :: world where
  "nested_after = \<lparr>files = [([''tmp''], Dir), ([''tmp'', ''src''], Dir),
     ([''tmp'', ''src'', ''c.txt''], File ''CCC'' True False),
     ([''4NSIKfilefix.log''], File [] True True),
     ([''tmp'', ''src'', ''docs''], Dir),
     ([''tmp'', ''src'', ''docs'', ''pdf''], Dir)], log = []\<rparr>"

definition blank_cfg :: config where
  "blank_cfg = \<lparr>cfg_folders = Some [('''', [''.txt''])], cfg_download_dir = Some ''/tmp/src''\<rparr>"

definition twin_world :: world where
  "twin_world = \<lparr>files = [([''tmp''], Dir), ([''tmp'', ''src''], Dir),
     ([''tmp'', ''src'', ''c.txt''], File ''CCC'' True False),
     ([''tmp'', ''src'', ''e.txt''], File ''CCC'' True False),
     ([''tmp'', ''src'', ''old''], Dir),
     ([''tmp'', ''src'', ''4NSIKfilefix.log''], File [] True True)], log = []\<rparr>"

text \<open>
  The program started in its download directory \<^verbatim>\<open>/tmp/src\<close>: loading the module has
  created the log file there, empty, and holds it open. \<open>log_organized\<close> is the state
  after the organize stage, in which one move was logged.
\<close>

definition log_base :: fs where
  "log_base = [([''tmp''], Dir), ([''tmp'', ''src''], Dir),
     ([''tmp'', ''src'', ''a.jpg''], File ''AAA'' True False),
     ([''tmp'', ''src'', ''c.txt''], File ''CCC'' True False)]"

definition log_world :: world where
  "log_world = \<lparr>files = [([''tmp''], Dir), ([''tmp'', ''src''], Dir),
     ([''tmp'', ''src'', ''a.jpg''], File ''AAA'' True False),
     ([''tmp'', ''src'', ''c.txt''], File ''CCC'' True False),
     ([''tmp'', ''src'', ''4NSIKfilefix.log''], File [] True True)], log = []\<rparr>"

definition log_organized :: world where
  "log_organized = \<lparr>files = [([''tmp''], Dir), ([''tmp'', ''src''], Dir),
     ([''tmp'', ''src'', ''c.txt''], File ''CCC'' True False),
     ([''tmp'', ''src'', ''4NSIKfilefix.log''],
        File (''12:00 - INFO - Moved a.jpg to images'' @ [CHR 0x0A]) True True),
     ([''tmp'', ''src'', ''images''], Dir),
     ([''tmp'', ''src'', ''docs''], Dir),
     ([''tmp'', ''src'', ''images'', ''a.jpg''], File ''AAA'' True False)],
     log = [Moved ''a.jpg'' ''images'']\<rparr>"

text \<open>
  The program started in the folder \<^verbatim>\<open>/tmp/src/docs\<close>, which holds two files of equal
  content and an empty file: loading the module has created the log file there, empty as
  well and listed last. \<open>live_after\<close> is the state after the deduplicate stage.
\<close>

definition live_base :: fs where
  "live_base = [([''tmp''], Dir), ([''tmp'', ''src''], Dir),
     ([''tmp'', ''src'', ''docs''], Dir),
     ([''tmp'', ''src'', ''docs'', ''a.pdf''], File ''S'' True False),
     ([''tmp'', ''src'', ''docs'', ''b.pdf''], File ''S'' True False),
     ([''tmp'', ''src'', ''docs'', ''e.pdf''], File [] True False)]"

definition live_world :: world where
  "live_world = \<lparr>files = [([''tmp''], Dir), ([''tmp'', ''src''], Dir),
     ([''tmp'', ''src'', ''docs''], Dir),
     ([''tmp'', ''src'', ''docs'', ''a.pdf''], File ''S'' True False),
     ([''tmp'', ''src'', ''docs'', ''b.pdf''], File ''S'' True False),
     ([''tmp'', ''src'', ''docs'', ''e.pdf''], File [] True False),
     ([''tmp'', ''src'', ''docs'', ''4NSIKfilefix.log''], File [] True True)], log = []\<rparr>"

definition live_after :: world where
  "live_after = \<lparr>files = [([''tmp''], Dir), ([''tmp'', ''src''], Dir),
     ([''tmp'', ''src'', ''docs''], Dir),
     ([''tmp'', ''src'', ''docs'', ''a.pdf''], File ''S'' True False),
     ([''tmp'', ''src'', ''docs'', ''e.pdf''], File [] True False),
     ([''tmp'', ''src'', ''docs'', ''4NSIKfilefix.log''],
        File (''12:00 - INFO - Removed duplicate file b.pdf from docs'' @ [CHR 0x0A]) True True)],
     log = [RemovedDuplicate ''b.pdf'' ''docs'']\<rparr>"

text \<open>
  Rules that send log files to a folder of their own; \<open>log_moved\<close> is the state after the
  organize stage under these rules, started in \<open>log_world\<close>: the open log file has been
  moved and holds the records of both moves.
\<close>

definition log_rules :: rules where
  "log_rules = [(''logs'', [''.log'']), (''images'', [''.jpg''])]"

definition log_moved :: world where
  "log_moved = \<lparr>files = [([''tmp''], Dir), ([''tmp'', ''src''], Dir),
     ([''tmp'', ''src'', ''c.txt''], File ''CCC'' True False),
     ([''tmp'', ''src'', ''logs''], Dir),
     ([''tmp'', ''src'', ''images''], Dir),
     ([''tmp'', ''src'', ''images'', ''a.jpg''], File ''AAA'' True False),
     ([''tmp'', ''src'', ''logs'', ''4NSIKfilefix.log''],
        File (''12:00 - INFO - Moved a.jpg to images'' @ [CHR 0x0A] @
              ''12:00 - INFO - Moved 4NSIKfilefix.log to logs'' @ [CHR 0x0A]) True True)],
     log = [Moved ''a.jpg'' ''images'', Moved ''4NSIKfilefix.log'' ''logs'']\<rparr>"

text \<open>
  The download directory of \<open>clean_world\<close> when the program was started in it and its
  log file has content from an earlier run; and the file system after the cleanup stage.
\<close>

definition clean_log_world :: world where
  "clean_log_world = \<lparr>files = [([''tmp''], Dir), ([''tmp'', ''src''], Dir),
     ([''tmp'', ''src'', ''images''], Dir),
     ([''tmp'', ''src'', ''docs''], Dir),
     ([''tmp'', ''src'', ''docs'', ''b.pdf''], File ''BBB'' True False),
     ([''tmp'', ''src'', ''outer''], Dir),
     ([''tmp'', ''src'', ''outer'', ''inner''], Dir),
     ([''tmp'', ''src'', ''c.txt''], File ''CCC'' True False),
     ([''tmp'', ''src'', ''4NSIKfilefix.log''], File ''old'' True True)], log = []\<rparr>"

definition clean_log_after :: fs where
  "clean_log_after = [([''tmp''], Dir), ([''tmp'', ''src''], Dir),
     ([''tmp'', ''src'', ''docs''], Dir),
     ([''tmp'', ''src'', ''docs'', ''b.pdf''], File ''BBB'' True False),
     ([''tmp'', ''src'', ''outer''], Dir),
     ([''tmp'', ''src'', ''outer'', ''inner''], Dir),
     ([''tmp'', ''src'', ''c.txt''], File ''CCC'' True False),
     ([''tmp'', ''src'', ''4NSIKfilefix.log''],
        File (''old12:00 - INFO - Removed empty folder images'' @ [CHR 0x0A]) True True)]"

text \<open>
  A file system that holds nothing but the log file, and the states in which some of the
  runs above end.
\<close>

definition bare_world :: world where
  "bare_world = \<lparr>files = [([''4NSIKfilefix.log''], File [] True True)], log = []\<rparr>"

definition bare_after :: world where
  "bare_after = \<lparr>files = [([''4NSIKfilefix.log''],
        File (''12:00 - INFO - Removed empty folder images'' @ [CHR 0x0A] @
              ''12:00 - INFO - Removed empty folder docs'' @ [CHR 0x0A]) True True),
     ([''tmp''], Dir), ([''tmp'', ''src''], Dir)],
     log = [RemovedEmptyFolder ''images'', RemovedEmptyFolder ''docs'']\<rparr>"

definition clean_after :: world where
  "clean_after = \<lparr>files = [([''tmp''], Dir), ([''tmp'', ''src''], Dir),
     ([''tmp'', ''src'', ''docs''], Dir),
     ([''tmp'', ''src'', ''docs'', ''b.pdf''], File ''BBB'' True False),
     ([''tmp'', ''src'', ''outer''], Dir),
     ([''tmp'', ''src'', ''outer'', ''inner''], Dir),
     ([''tmp'', ''src'', ''c.txt''], File ''CCC'' True False),
     ([''4NSIKfilefix.log''],
        File (''12:00 - INFO - Removed empty folder images'' @ [CHR 0x0A]) True True)],
     log = [RemovedEmptyFolder ''images'']\<rparr>"

definition dot_once :: world where
  "dot_once = \<lparr>files = [([''tmp''], Dir), ([''tmp'', ''src''], Dir),
     ([''tmp'', ''src'', ''c.txt''], File ''CCC'' True False),
     ([''4NSIKfilefix.log''],
        File (''12:00 - INFO - Moved c.txt to .'' @ [CHR 0x0A]) True True)],
     log = [Moved ''c.txt'' ''.'']\<rparr>"

definition dot_twice :: world where
  "dot_twice = \<lparr>files = [([''tmp''], Dir), ([''tmp'', ''src''], Dir),
     ([''tmp'', ''src'', ''c.txt''], File ''CCC'' True False),
     ([''4NSIKfilefix.log''],
        File (''12:00 - INFO - Moved c.txt to .'' @ [CHR 0x0A] @
              ''12:00 - INFO - Moved c.txt to .'' @ [CHR 0x0A]) True True)],
     log = [Moved ''c.txt'' ''.'', Moved ''c.txt'' ''.'']\<rparr>"

definition twin_first :: world where
  "twin_first = \<lparr>files = [([''tmp''], Dir), ([''tmp'', ''src''], Dir),
     ([''tmp'', ''src'', ''c.txt''], File ''CCC'' True False),
     ([''tmp'', ''src'', ''4NSIKfilefix.log''],
        File (''12:00 - INFO - Moved c.txt to '' @ [CHR 0x0A] @
              ''12:00 - INFO - Moved e.txt to '' @ [CHR 0x0A] @
              ''12:00 - INFO - Removed duplicate file e.txt from '' @ [CHR 0x0A] @
              ''12:00 - INFO - Removed empty folder old'' @ [CHR 0x0A]) True True)],
     log = [Moved ''c.txt'' [], Moved ''e.txt'' [],
            RemovedDuplicate ''e.txt'' [], RemovedEmptyFolder ''old'']\<rparr>"

definition twin_second :: world where
  "twin_second = \<lparr>files = [([''tmp''], Dir), ([''tmp'', ''src''], Dir),
     ([''tmp'', ''src'', ''c.txt''], File ''CCC'' True False),
     ([''tmp'', ''src'', ''e.txt''], File ''CCC'' True False),
     ([''tmp'', ''src'', ''old''], Dir),
     ([''tmp'', ''src'', ''4NSIKfilefix.log''],
        File (''12:00 - INFO - Moved c.txt to '' @ [CHR 0x0A] @
              ''12:00 - INFO - Moved e.txt to '' @ [CHR 0x0A]) True True)],
     log = [Moved ''c.txt'' [], Moved ''e.txt'' []]\<rparr>"

section \<open>Facts about the file system\<close>

subsection \<open>Looking up after a change\<close>

lemma lookup_Nil [simp]: "lookup fs [] = Some Dir"
  by (simp add: lookup_def)

lemma lookup_delete:
  "k \<noteq> [] \<Longrightarrow> lookup (AList.delete k fs) p = (if p = k then None else lookup fs p)"
  by (simp add: lookup_def delete_conv')

lemma lookup_update:
  "k \<noteq> [] \<Longrightarrow> lookup (AList.update k v fs) p = (if p = k then Some v else lookup fs p)"
  by (simp add: lookup_def update_conv')

lemma lookup_snoc:
  "lookup (fs @ [(k, v)]) p =
     (case lookup fs p of Some e \<Rightarrow> Some e | None \<Rightarrow> if p = k then Some v else None)"
  by (simp add: lookup_def map_add_def split: option.splits)

lemma lookup_None_iff: "lookup fs p = None \<longleftrightarrow> p \<noteq> [] \<and> p \<notin> fst ` set fs"
  by (simp add: lookup_def map_of_eq_None_iff)

lemma lookup_Some_mem: "distinct (map fst fs) \<Longrightarrow> p \<noteq> [] \<Longrightarrow> lookup fs p = Some e \<longleftrightarrow> (p, e) \<in> set fs"
  by (simp add: lookup_def)

lemma is_file_lookup: "is_file fs p \<longleftrightarrow> (\<exists>c r l. lookup fs p = Some (File c r l))"
  by (auto simp: is_file_def split: option.splits entry.splits)

lemma is_file_not_Nil: "is_file fs p \<Longrightarrow> p \<noteq> []"
  by (auto simp: is_file_def)

lemma dir_status_None [simp]: "dir_status fs p = None \<longleftrightarrow> is_dir fs p"
  by (auto simp: dir_status_def is_dir_def split: option.splits entry.splits)

lemma os_listdir_dir: "is_dir fs p \<Longrightarrow> os_listdir fs p = Inr (names_in fs p)"
proof -
  assume "is_dir fs p"
  then have e: "dir_status fs p = None" by simp
  show ?thesis by (simp add: os_listdir_def e del: dir_status_None)
qed

lemma os_listdir_Inr: "os_listdir fs p = Inr ns \<Longrightarrow> is_dir fs p \<and> ns = names_in fs p"
  by (auto simp: os_listdir_def split: option.splits)

subsection \<open>Names\<close>

lemma names_in_mem: "n \<in> set (names_in fs p) \<longleftrightarrow> p @ [n] \<in> fst ` set fs"
proof
  assume "n \<in> set (names_in fs p)"
  then obtain k e where "(k, e) \<in> set fs" "k \<noteq> []" "butlast k = p" "last k = n"
    by (auto simp: names_in_def)
  then have "k = p @ [n]" by (metis append_butlast_last_id)
  with \<open>(k, e) \<in> set fs\<close> show "p @ [n] \<in> fst ` set fs" by force
next
  assume "p @ [n] \<in> fst ` set fs"
  then obtain e where "(p @ [n], e) \<in> set fs" by auto
  then show "n \<in> set (names_in fs p)"
    by (force simp: names_in_def)
qed

lemma names_in_distinct:
  assumes "distinct (map fst fs)"
  shows "distinct (names_in fs p)"
proof -
  let ?xs = "filter (\<lambda>(k, e). k \<noteq> [] \<and> butlast k = p) fs"
  have d: "distinct (map fst ?xs)" using assms by (simp add: distinct_map_filter)
  have "inj_on (\<lambda>k. last k) (set (map fst ?xs))"
    by (rule inj_onI) (auto, metis append_butlast_last_id)
  with d have "distinct (map last (map fst ?xs))"
    by (rule distinct_map[THEN iffD2, OF conjI])
  moreover have "map last (map fst ?xs) = names_in fs p"
    by (simp add: names_in_def case_prod_unfold comp_def)
  ultimately show ?thesis by simp
qed

lemma names_in_delete_other:
  "butlast k \<noteq> p \<Longrightarrow> names_in (AList.delete k fs) p = names_in fs p"
proof -
  assume a: "butlast k \<noteq> p"
  have "filter (\<lambda>(k', e). k' \<noteq> [] \<and> butlast k' = p) (AList.delete k fs)
        = filter (\<lambda>(k', e). k' \<noteq> [] \<and> butlast k' = p) fs"
    unfolding AList.delete_eq filter_filter
    by (rule filter_cong) (use a in auto)
  then show ?thesis by (simp add: names_in_def)
qed

subsection \<open>Plain names and paths\<close>

lemma split_slash_plain: "CHR ''/'' \<notin> set s \<Longrightarrow> split_slash acc s = [acc @ s]"
  by (induction s arbitrary: acc) auto

lemma split_slash_no_slash:
  "x \<in> set (split_slash acc s) \<Longrightarrow> CHR ''/'' \<notin> set acc \<Longrightarrow> CHR ''/'' \<notin> set x"
  by (induction acc s rule: split_slash.induct) (auto split: if_splits)

lemma parts_of_plain: "plain_name n \<Longrightarrow> parts_of n = [n]"
  by (simp add: plain_name_def parts_of_def split_slash_plain)

lemma parts_of_all_plain: "c \<in> set (parts_of s) \<Longrightarrow> plain_name c"
  by (auto simp: parts_of_def plain_name_def dest: split_slash_no_slash)

lemma Path_plain: "plain_name n \<Longrightarrow> Path n = PurePath False [n]"
  by (cases n) (auto simp: Path_def parts_of_plain plain_name_def)

lemma truediv_plain: "plain_name n \<Longrightarrow> truediv P n = PurePath (anchored P) (parts P @ [n])"
  by (simp add: truediv_def Path_plain)

lemma locate_truediv_plain: "plain_name n \<Longrightarrow> locate cwd (truediv P n) = locate cwd P @ [n]"
  by (simp add: truediv_plain locate_def)

lemma plain_path_Path: "plain_path (parts (Path s))"
  by (auto simp: Path_def plain_path_def list_all_iff dest: parts_of_all_plain)

lemma plain_path_truediv: "plain_path (parts P) \<Longrightarrow> plain_path (parts (truediv P s))"
  using plain_path_Path[of s] by (auto simp: truediv_def Let_def plain_path_def)

lemma plain_path_locate: "plain_path cwd \<Longrightarrow> plain_path (parts P) \<Longrightarrow> plain_path (locate cwd P)"
  by (auto simp: locate_def plain_path_def)

lemma wf_fs_names_plain: "wf_fs fs \<Longrightarrow> n \<in> set (names_in fs p) \<Longrightarrow> plain_name n"
  by (force simp: wf_fs_def names_in_mem list_all_iff plain_path_def)


subsection \<open>Writing to the log file\<close>

lemma appended_Nil [simp]: "appended [] e = e"
  by (simp add: appended_def split: entry.splits)

lemma appended_appended [simp]: "appended t2 (appended t1 e) = appended (t1 @ t2) e"
  by (simp add: appended_def split: entry.splits)

lemma appended_Dir [simp]: "appended t Dir = Dir"
  by (simp add: appended_def)

lemma appended_File [simp]:
  "appended t (File c r l) = File (if l then c @ t else c) r l"
  by (simp add: appended_def)

lemma appended_eq_Dir [simp]: "appended t e = Dir \<longleftrightarrow> e = Dir"
  by (simp add: appended_def split: entry.splits)

lemma appended_eq_File:
  "appended t e = File c r l \<longleftrightarrow> (\<exists>c0. e = File c0 r l \<and> c = (if l then c0 @ t else c0))"
  by (cases e) auto

lemma emit_Nil [simp]: "emit [] fs = fs"
  by (induction fs) (auto simp: emit_def)

lemma emit_emit [simp]: "emit t2 (emit t1 fs) = emit (t1 @ t2) fs"
  by (induction fs) (auto simp: emit_def)

lemma emit_append [simp]: "emit t (xs @ ys) = emit t xs @ emit t ys"
  by (simp add: emit_def)

lemma map_fst_emit [simp]: "map fst (emit t fs) = map fst fs"
  by (induction fs) (auto simp: emit_def)

lemma keys_emit [simp]: "fst ` set (emit t fs) = fst ` set fs"
  using map_fst_emit[of t fs] by (metis set_map)

lemma wf_fs_emit [simp]: "wf_fs (emit t fs) = wf_fs fs"
proof -
  have "list_all (\<lambda>(k, e). k \<noteq> [] \<and> plain_path k) (emit t fs)
      = list_all (\<lambda>(k, e). k \<noteq> [] \<and> plain_path k) fs"
    by (induction fs) (auto simp: emit_def)
  then show ?thesis by (simp add: wf_fs_def)
qed

lemma lookup_emit: "lookup (emit t fs) p = map_option (appended t) (lookup fs p)"
proof -
  have "map_of (emit t fs) p = map_option (appended t) (map_of fs p)"
    by (induction fs) (auto simp: emit_def)
  then show ?thesis by (simp add: lookup_def)
qed

lemma is_file_emit [simp]: "is_file (emit t fs) p = is_file fs p"
  by (auto simp: is_file_def lookup_emit appended_def split: option.splits entry.splits)

lemma is_dir_emit [simp]: "is_dir (emit t fs) p = is_dir fs p"
  by (auto simp: is_dir_def lookup_emit)

lemma landing_emit [simp]: "landing (emit t fs) dst n = landing fs dst n"
  by (simp add: landing_def)

lemma path_exists_emit [simp]: "path_exists (emit t fs) p = path_exists fs p"
  by (simp add: path_exists_def lookup_emit)

lemma names_in_emit [simp]: "names_in (emit t fs) p = names_in fs p"
  by (induction fs) (auto simp: names_in_def emit_def)

lemma os_listdir_emit [simp]: "os_listdir (emit t fs) p = os_listdir fs p"
proof -
  have "dir_status (emit t fs) p = dir_status fs p"
    by (auto simp: dir_status_def lookup_emit list_ex_iff appended_def
        split: option.splits entry.splits)
  then show ?thesis by (simp add: os_listdir_def del: dir_status_None split: option.splits)
qed

lemma emit_restrict: "AList.restrict A (emit t fs) = emit t (AList.restrict A fs)"
  by (induction fs) (auto simp: emit_def AList.restrict_eq)

lemma files_logging_info [simp]:
  "files (logging_info asctime ev w) = emit (format_record asctime (length (log w)) ev) (files w)"
  by (simp add: logging_info_def)

lemma log_logging_info [simp]: "log (logging_info asctime ev w) = log w @ [ev]"
  by (simp add: logging_info_def)

lemma log_text_append:
  "log_text asctime k (xs @ ys) = log_text asctime k xs @ log_text asctime (k + length xs) ys"
  by (induction xs arbitrary: k) auto

lemma written_same [simp]: "written asctime w w = []"
  by (simp add: written_def)

lemma written_eq: "log w' = log w @ evs \<Longrightarrow> written asctime w w' = log_text asctime (length (log w)) evs"
  by (simp add: written_def)

lemma written_step:
  assumes "log w1 = log w @ [ev]" "log w' = log w1 @ evs"
  shows "written asctime w w' = format_record asctime (length (log w)) ev @ written asctime w1 w'"
  using assms by (simp add: written_def)

lemma written_trans:
  assumes "log w1 = log w @ xs" "log w' = log w1 @ ys"
  shows "written asctime w w' = written asctime w w1 @ written asctime w1 w'"
  using assms by (simp add: written_def log_text_append)

subsection \<open>File systems that only gain directories\<close>

lemma grows_refl: "grows fs A fs"
  unfolding grows_def by (rule exI[of _ "[]"]) simp

lemma grows_mono: "grows fs A fs' \<Longrightarrow> A \<subseteq> B \<Longrightarrow> grows fs B fs'"
  unfolding grows_def by blast

lemma lookup_append_dirs:
  "lookup (fs @ map (\<lambda>k. (k, Dir)) ks) q =
     (case lookup fs q of Some e \<Rightarrow> Some e | None \<Rightarrow> if q \<in> set ks then Some Dir else None)"
proof -
  have "map_of (map (\<lambda>k. (k, Dir)) ks) q = (if q \<in> set ks then Some Dir else None)"
    by (induction ks) auto
  then show ?thesis
    by (simp add: lookup_def map_add_def split: option.splits)
qed

lemma grows_lookup_old: "grows fs A fs' \<Longrightarrow> lookup fs q = Some e \<Longrightarrow> lookup fs' q = Some e"
  unfolding grows_def by (auto simp: lookup_append_dirs)

lemma grows_lookup_new:
  "grows fs A fs' \<Longrightarrow> lookup fs q = None \<Longrightarrow> lookup fs' q = Some e \<Longrightarrow> e = Dir \<and> q \<in> A"
  unfolding grows_def by (auto simp: lookup_append_dirs split: if_splits)

lemma grows_lookup_file:
  "grows fs A fs' \<Longrightarrow> lookup fs' q = Some (File c r l) \<longleftrightarrow> lookup fs q = Some (File c r l)"
  unfolding grows_def by (auto simp: lookup_append_dirs split: option.splits if_splits)

lemma grows_is_file: "grows fs A fs' \<Longrightarrow> is_file fs' q = is_file fs q"
  by (simp add: is_file_lookup grows_lookup_file)

lemma grows_is_dir: "grows fs A fs' \<Longrightarrow> is_dir fs q \<Longrightarrow> is_dir fs' q"
  by (simp add: is_dir_def grows_lookup_old)

lemma grows_snoc:
  assumes "grows fs A fs'" "lookup fs' p = None"
  shows "grows fs (insert p A) (fs' @ [(p, Dir)])"
proof -
  from assms(1) obtain ks where ks: "fs' = fs @ map (\<lambda>k. (k, Dir)) ks" "set ks \<subseteq> A"
    "distinct ks" "\<forall>k\<in>set ks. lookup fs k = None"
    unfolding grows_def by blast
  from assms(2) ks(1) have "p \<notin> set ks" "lookup fs p = None"
    by (auto simp: lookup_append_dirs split: option.splits if_splits)
  with ks show ?thesis
    unfolding grows_def by (intro exI[of _ "ks @ [p]"]) auto
qed

lemma grows_trans:
  assumes "grows fs A fs1" "grows fs1 B fs2"
  shows "grows fs (A \<union> B) fs2"
proof -
  from assms(1) obtain ks where ks: "fs1 = fs @ map (\<lambda>k. (k, Dir)) ks" "set ks \<subseteq> A"
    "distinct ks" "\<forall>k\<in>set ks. lookup fs k = None"
    unfolding grows_def by blast
  from assms(2) obtain ls where ls: "fs2 = fs1 @ map (\<lambda>k. (k, Dir)) ls" "set ls \<subseteq> B"
    "distinct ls" "\<forall>k\<in>set ls. lookup fs1 k = None"
    unfolding grows_def by blast
  have "\<forall>k\<in>set ls. k \<notin> set ks \<and> lookup fs k = None"
    using ls(4) ks(1) by (auto simp: lookup_append_dirs split: option.splits if_splits)
  with ks ls show ?thesis
    unfolding grows_def by (intro exI[of _ "ks @ ls"]) auto
qed

lemma grows_wf:
  assumes "grows fs A fs'" "wf_fs fs" "\<forall>k\<in>A. plain_path k"
  shows "wf_fs fs'"
proof -
  from assms(1) obtain ks where ks: "fs' = fs @ map (\<lambda>k. (k, Dir)) ks" "set ks \<subseteq> A"
    "distinct ks" "\<forall>k\<in>set ks. lookup fs k = None"
    unfolding grows_def by blast
  have "map fst (map (\<lambda>k. (k, Dir)) ks) = ks" by (induction ks) auto
  moreover have "\<forall>k\<in>set ks. k \<noteq> [] \<and> k \<notin> fst ` set fs"
    using ks(4) by (auto simp: lookup_None_iff)
  ultimately show ?thesis
    using assms(2,3) ks unfolding wf_fs_def list_all_iff by auto
qed

lemma grows_keys:
  "grows fs A fs' \<Longrightarrow> k \<in> fst ` set fs' \<Longrightarrow> k \<in> fst ` set fs \<or> k \<in> A"
  unfolding grows_def by force

lemma grows_keys_old: "grows fs A fs' \<Longrightarrow> k \<in> fst ` set fs \<Longrightarrow> k \<in> fst ` set fs'"
  unfolding grows_def by auto

subsection \<open>Creating directories\<close>

lemma os_mkdir_Inr:
  "os_mkdir fs p = Inr fs' \<Longrightarrow> fs' = fs @ [(p, Dir)] \<and> lookup fs p = None \<and> is_dir fs (butlast p)"
  by (auto simp: os_mkdir_def path_exists_def split: if_splits option.splits)

lemma os_mkdir_grows: "os_mkdir fs p = Inr fs' \<Longrightarrow> grows fs {p} fs'"
  using grows_snoc[OF grows_refl, of fs p "{}"] by (auto dest!: os_mkdir_Inr)

declare path_mkdir.simps [simp del]

lemma path_mkdir_grows:
  "path_mkdir ok fs p = Inr fs' \<Longrightarrow> grows fs (set (prefixes p)) fs'"
proof (induction ok fs p arbitrary: fs' rule: path_mkdir.induct)
  case (1 ok fs p)
  show ?case
  proof (cases "os_mkdir fs p")
    case (Inr a)
    with "1.prems" have "fs' = a" by (simp add: path_mkdir.simps[of ok fs p])
    with Inr show ?thesis by (auto intro: grows_mono[OF os_mkdir_grows])
  next
    case (Inl e)
    show ?thesis
    proof (cases "e = FileNotFoundError \<and> p \<noteq> []")
      case False
      with Inl "1.prems" have "fs' = fs"
        by (auto simp: path_mkdir.simps[of ok fs p] split: if_splits)
      then show ?thesis by (simp add: grows_refl)
    next
      case True
      then obtain fs1 where r: "path_mkdir True fs (butlast p) = Inr fs1"
        using Inl "1.prems" by (cases "path_mkdir True fs (butlast p)")
          (auto simp: path_mkdir.simps[of ok fs p])
      from "1.IH"[OF Inl _ _ r] True have g1: "grows fs (set (prefixes (butlast p))) fs1"
        by simp
      have sub: "set (prefixes (butlast p)) \<subseteq> set (prefixes p)"
        using prefix_order.trans[OF _ prefixeq_butlast[of p]] by (auto simp: in_set_prefixes)
      show ?thesis
      proof (cases "os_mkdir fs1 p")
        case (Inr b)
        with r Inl True "1.prems" have "fs' = b"
          by (simp add: path_mkdir.simps[of ok fs p])
        with Inr have "grows fs1 {p} fs'" by (simp add: os_mkdir_grows)
        from grows_trans[OF g1 this] show ?thesis
          by (rule grows_mono) (use sub in auto)
      next
        case (Inl e')
        with r \<open>os_mkdir fs p = Inl e\<close> True "1.prems" have "fs' = fs1"
          by (auto simp: path_mkdir.simps[of ok fs p] split: if_splits)
        with g1 sub show ?thesis by (auto intro: grows_mono)
      qed
    qed
  qed
qed

lemma path_mkdir_is_dir: "path_mkdir ok fs p = Inr fs' \<Longrightarrow> is_dir fs' p"
proof (induction ok fs p arbitrary: fs' rule: path_mkdir.induct)
  case (1 ok fs p)
  have snoc: "\<And>a b. os_mkdir a p = Inr b \<Longrightarrow> is_dir b p"
    by (auto dest!: os_mkdir_Inr simp: is_dir_def lookup_snoc)
  show ?case
  proof (cases "os_mkdir fs p")
    case (Inr a)
    with "1.prems" have "fs' = a" by (simp add: path_mkdir.simps[of ok fs p])
    with Inr snoc show ?thesis by simp
  next
    case (Inl e)
    then show ?thesis using "1.prems" snoc
      by (auto simp: path_mkdir.simps[of ok fs p] split: if_splits sum.splits)
  qed
qed


section \<open>Facts about the organize stage\<close>

subsection \<open>The loop that creates the folders\<close>

lemma make_folders_grows:
  "make_folders cwd d rules fs = Inr fs' \<Longrightarrow>
   grows fs (\<Union>f\<in>fst ` set rules. set (prefixes (folder_dir cwd d f))) fs'"
proof (induction rules arbitrary: fs)
  case Nil
  then show ?case by (simp add: grows_refl)
next
  case (Cons a rules)
  obtain folder exts where a: "a = (folder, exts)" by (cases a)
  let ?A = "\<Union>f\<in>fst ` set rules. set (prefixes (folder_dir cwd d f))"
  let ?p = "folder_dir cwd d folder"
  show ?case
  proof (cases "path_exists fs ?p")
    case True
    with Cons.prems a have "make_folders cwd d rules fs = Inr fs'" by simp
    from Cons.IH[OF this] show ?thesis by (rule grows_mono) auto
  next
    case False
    with Cons.prems a obtain fs1 where m: "path_mkdir False fs ?p = Inr fs1"
      and r: "make_folders cwd d rules fs1 = Inr fs'"
      by (auto split: sum.splits)
    from grows_trans[OF path_mkdir_grows[OF m] Cons.IH[OF r]] show ?thesis
      by (rule grows_mono) (auto simp: a)
  qed
qed

lemma make_folders_exist:
  "make_folders cwd d rules fs = Inr fs' \<Longrightarrow> f \<in> fst ` set rules \<Longrightarrow>
   path_exists fs' (folder_dir cwd d f)"
proof (induction rules arbitrary: fs)
  case Nil
  then show ?case by simp
next
  case (Cons a rules)
  obtain folder exts where a: "a = (folder, exts)" by (cases a)
  let ?p = "folder_dir cwd d folder"
  have "\<exists>fs1. make_folders cwd d rules fs1 = Inr fs' \<and> path_exists fs1 ?p"
  proof (cases "path_exists fs ?p")
    case True
    with Cons.prems(1) a show ?thesis by auto
  next
    case False
    with Cons.prems(1) a obtain fs1 where m: "path_mkdir False fs ?p = Inr fs1"
      and r: "make_folders cwd d rules fs1 = Inr fs'"
      by (auto split: sum.splits)
    from path_mkdir_is_dir[OF m] r show ?thesis
      by (auto simp: path_exists_def is_dir_def)
  qed
  then obtain fs1 where r: "make_folders cwd d rules fs1 = Inr fs'"
    and e: "path_exists fs1 ?p" by blast
  show ?case
  proof (cases "f = folder")
    case True
    from e obtain x where "lookup fs1 ?p = Some x" by (auto simp: path_exists_def)
    from grows_lookup_old[OF make_folders_grows[OF r] this] True show ?thesis
      by (simp add: path_exists_def)
  next
    case False
    with Cons.prems(2) a have "f \<in> fst ` set rules" by auto
    from Cons.IH[OF r this] show ?thesis .
  qed
qed

subsection \<open>One move\<close>

lemma os_rename_Inr:
  assumes "os_rename fs src dst = Inr fs'"
  shows "\<exists>c r l. lookup fs src = Some (File c r l) \<and> is_dir fs (butlast dst) \<and> \<not> is_dir fs dst \<and>
           fs' = (if src = dst then fs else AList.update dst (File c r l) (AList.delete src fs))"
  using assms
  by (auto simp: os_rename_def split: option.splits entry.splits if_splits)

lemma shutil_move_Inr:
  assumes "shutil_move fs src dst = Inr fs'"
  defines "real \<equiv> landing fs dst (last src)"
  shows "\<exists>c r l. lookup fs src = Some (File c r l) \<and> is_dir fs (butlast real) \<and> \<not> is_dir fs real \<and>
           (is_dir fs dst \<longrightarrow> lookup fs real = None) \<and>
           fs' = (if src = real then fs else AList.update real (File c r l) (AList.delete src fs))"
proof (cases "is_dir fs dst")
  case True
  with assms(1) have rn: "os_rename fs src (dst @ [last src]) = Inr fs'"
    and n: "lookup fs (dst @ [last src]) = None"
    by (auto simp: shutil_move_def Let_def path_exists_def split: if_splits)
  from os_rename_Inr[OF rn] obtain c r l where
    "lookup fs src = Some (File c r l)" "is_dir fs (butlast (dst @ [last src]))"
    "\<not> is_dir fs (dst @ [last src])"
    "fs' = (if src = dst @ [last src] then fs
           else AList.update (dst @ [last src]) (File c r l) (AList.delete src fs))"
    by blast
  with True n show ?thesis
    unfolding real_def landing_def by (intro exI[of _ c] exI[of _ r] exI[of _ l]) simp
next
  case False
  with assms(1) have rn: "os_rename fs src dst = Inr fs'"
    by (auto simp: shutil_move_def Let_def split: if_splits)
  from os_rename_Inr[OF rn] obtain c r l where
    "lookup fs src = Some (File c r l)" "is_dir fs (butlast dst)" "\<not> is_dir fs dst"
    "fs' = (if src = dst then fs else AList.update dst (File c r l) (AList.delete src fs))"
    by blast
  with False show ?thesis
    unfolding real_def landing_def by (intro exI[of _ c] exI[of _ r] exI[of _ l]) simp
qed

lemma landing_not_Nil: "landing fs dst n \<noteq> []"
  by (auto simp: landing_def is_dir_def)

lemma shutil_move_lookup:
  assumes "shutil_move fs src dst = Inr fs'"
  shows "lookup fs' q = (if q = landing fs dst (last src) then lookup fs src
                         else if q = src then None else lookup fs q)"
proof -
  from shutil_move_Inr[OF assms] obtain c r l where
    s: "lookup fs src = Some (File c r l)" and
    f: "fs' = (if src = landing fs dst (last src) then fs
               else AList.update (landing fs dst (last src)) (File c r l) (AList.delete src fs))"
    by blast
  from s have "src \<noteq> []" by auto
  with s f show ?thesis
    by (auto simp: lookup_update lookup_delete landing_not_Nil)
qed

lemma shutil_move_src: "shutil_move fs src dst = Inr fs' \<Longrightarrow> is_file fs src"
  by (auto dest!: shutil_move_Inr simp: is_file_lookup)

lemma shutil_move_is_dir:
  assumes "shutil_move fs src dst = Inr fs'"
  shows "is_dir fs' q = is_dir fs q"
proof -
  from shutil_move_Inr[OF assms] obtain c r l where
    "lookup fs src = Some (File c r l)" "\<not> is_dir fs (landing fs dst (last src))"
    by blast
  then show ?thesis
    unfolding is_dir_def shutil_move_lookup[OF assms] by auto
qed

lemma shutil_move_keys:
  assumes "shutil_move fs src dst = Inr fs'"
  shows "fst ` set fs' \<subseteq> insert (landing fs dst (last src)) (fst ` set fs)"
proof -
  from shutil_move_Inr[OF assms] obtain c r l where
    "fs' = (if src = landing fs dst (last src) then fs
            else AList.update (landing fs dst (last src)) (File c r l) (AList.delete src fs))"
    by blast
  then show ?thesis
    using dom_delete_subset[of src fs] by (auto simp: dom_update)
qed

lemma shutil_move_distinct:
  assumes "shutil_move fs src dst = Inr fs'" "distinct (map fst fs)"
  shows "distinct (map fst fs')"
proof -
  from shutil_move_Inr[OF assms(1)] obtain c r l where
    "fs' = (if src = landing fs dst (last src) then fs
            else AList.update (landing fs dst (last src)) (File c r l) (AList.delete src fs))"
    by blast
  then show ?thesis
    using assms(2) by (auto simp: distinct_update distinct_delete)
qed


subsection \<open>The moving loop, one round at a time\<close>

lemma landing_last: "dst \<noteq> [] \<Longrightarrow> last dst = n \<Longrightarrow> last (landing fs dst n) = n"
  by (simp add: landing_def)

lemma shutil_move_frame_last:
  assumes "shutil_move fs src dst = Inr fs'" "dst \<noteq> []" "last dst = last src"
    and "q = [] \<or> last q \<noteq> last src"
  shows "lookup fs' q = lookup fs q"
proof (cases "q = []")
  case True
  then show ?thesis by simp
next
  case False
  with assms(4) have "q \<noteq> landing fs dst (last src)" "q \<noteq> src"
    using landing_last[OF assms(2), of "last src" fs] assms(3) by auto
  then show ?thesis by (simp add: shutil_move_lookup[OF assms(1)])
qed

lemma landing_cong: "(\<And>q. is_dir fs' q = is_dir fs q) \<Longrightarrow> landing fs' dst n = landing fs dst n"
  by (simp add: landing_def)

lemma organize_loop_Cons:
  assumes "plain_name n"
  shows "organize_loop asctime cwd rules d (n # rest) w c =
     (if is_file (files w) (source_dir cwd d @ [n]) then
        (case first_match rules n of
           None \<Rightarrow> organize_loop asctime cwd rules d rest w c
         | Some f \<Rightarrow>
             (case shutil_move (files w) (source_dir cwd d @ [n]) (folder_dir cwd d f @ [n]) of
                Inl e \<Rightarrow> Inl (e, w)
              | Inr fs' \<Rightarrow>
                  organize_loop asctime cwd rules d rest
                    (logging_info asctime (Moved n f) (w\<lparr>files := fs'\<rparr>)) (counter_incr c f)))
      else organize_loop asctime cwd rules d rest w c)"
  using assms by (simp add: locate_truediv_plain Let_def split: option.splits)

text \<open>What one round of the loop does, when the whole loop succeeds.\<close>

lemma organize_loop_step:
  assumes "organize_loop asctime cwd rules d (n # rest) w c = Inr r" "plain_name n"
  obtains (skip) "\<forall>f. \<not> routed cwd rules d (files w) n f"
      "organize_loop asctime cwd rules d rest w c = Inr r"
  | (move) f fs' where "routed cwd rules d (files w) n f"
      "shutil_move (files w) (source_dir cwd d @ [n]) (folder_dir cwd d f @ [n]) = Inr fs'"
      "organize_loop asctime cwd rules d rest
         (logging_info asctime (Moved n f) (w\<lparr>files := fs'\<rparr>)) (counter_incr c f) = Inr r"
  using assms unfolding organize_loop_Cons[OF assms(2)]
  by (auto split: if_splits option.splits sum.splits)

lemma move_keeps_routed:
  assumes "shutil_move fs (D @ [n]) (P @ [n]) = Inr fs'" "n \<notin> set rest"
  shows "\<forall>m\<in>set rest. is_file fs' (D @ [m]) = is_file fs (D @ [m])"
proof
  fix m assume "m \<in> set rest"
  with assms(2) have "m \<noteq> n" by auto
  with shutil_move_frame_last[OF assms(1), of "D @ [m]"]
  show "is_file fs' (D @ [m]) = is_file fs (D @ [m])"
    by (simp add: is_file_def)
qed

lemma organize_loop_is_dir:
  assumes "organize_loop asctime cwd rules d names w c = Inr (w', c')" "list_all plain_name names"
  shows "is_dir (files w') q = is_dir (files w) q"
  using assms
proof (induction names arbitrary: w c)
  case Nil
  then show ?case by simp
next
  case (Cons n rest)
  from Cons.prems(2) have pn: "plain_name n" and pr: "list_all plain_name rest" by auto
  from Cons.prems(1) pn show ?case
  proof (cases rule: organize_loop_step)
    case skip
    from Cons.IH[OF skip(2) pr] show ?thesis .
  next
    case (move f fs')
    from Cons.IH[OF move(3) pr] shutil_move_is_dir[OF move(2)] show ?thesis by simp
  qed
qed

subsection \<open>What the loop leaves alone, whether it returns or fails\<close>

lemma ostate_simps [simp]: "ostate (Inl (e, w)) = w" "ostate (Inr (w, c)) = w"
  by (simp_all add: ostate_def)

lemma map_option_appended:
  "map_option (appended t2) (map_option (appended t1) x) = map_option (appended (t1 @ t2)) x"
  by (cases x) simp_all

lemma map_option_appended_Nil [simp]: "map_option (appended []) x = x"
  by (cases x) simp_all

lemma is_file_appended:
  "lookup fs' q = map_option (appended t) (lookup fs q) \<Longrightarrow> is_file fs' q = is_file fs q"
  by (cases "lookup fs q") (auto simp: is_file_def appended_def split: entry.splits)

lemma organize_loop_log_grows:
  "\<exists>evs. log (ostate (organize_loop asctime cwd rules d names w c)) = log w @ evs"
proof (induction names arbitrary: w c)
  case Nil
  then show ?case by simp
next
  case (Cons n rest)
  let ?src = "locate cwd (truediv (Path d) n)"
  show ?case
  proof (cases "is_file (files w) ?src")
    case False
    with Cons[of w c] show ?thesis by simp
  next
    case True
    show ?thesis
    proof (cases "first_match rules n")
      case None
      with True Cons[of w c] show ?thesis by simp
    next
      case (Some f)
      let ?dst = "locate cwd (truediv (truediv (Path d) f) n)"
      show ?thesis
      proof (cases "shutil_move (files w) ?src ?dst")
        case (Inl e)
        with True Some show ?thesis by simp
      next
        case (Inr fs')
        let ?w = "logging_info asctime (Moved n f) (w\<lparr>files := fs'\<rparr>)"
        from Cons[of ?w "counter_incr c f"] obtain evs where
          "log (ostate (organize_loop asctime cwd rules d rest ?w (counter_incr c f)))
             = log w @ Moved n f # evs"
          by auto
        with True Some Inr show ?thesis by simp
      qed
    qed
  qed
qed

lemma organize_loop_frame_any:
  assumes "list_all plain_name names" "distinct names"
    and "q = [] \<or> (\<forall>f. \<not> (last q \<in> set names \<and> routed cwd rules d (files w) (last q) f))"
  shows "lookup (files (ostate (organize_loop asctime cwd rules d names w c))) q
         = map_option
             (appended (written asctime w (ostate (organize_loop asctime cwd rules d names w c))))
             (lookup (files w) q)"
  using assms
proof (induction names arbitrary: w c)
  case Nil
  then show ?case by (simp add: option.map_ident)
next
  case (Cons n rest)
  let ?D = "source_dir cwd d"
  from Cons.prems(1) have pn: "plain_name n" and pr: "list_all plain_name rest" by auto
  from Cons.prems(2) have dn: "n \<notin> set rest" and dr: "distinct rest" by auto
  have skip: "lookup (files (ostate (organize_loop asctime cwd rules d rest w c))) q
              = map_option
                  (appended (written asctime w (ostate (organize_loop asctime cwd rules d rest w c))))
                  (lookup (files w) q)"
    using Cons.IH[OF pr dr, where w=w and c=c] Cons.prems(3) by auto
  show ?case
  proof (cases "is_file (files w) (?D @ [n])")
    case False
    with skip show ?thesis by (simp add: organize_loop_Cons[OF pn] del: organize_loop.simps)
  next
    case True
    show ?thesis
    proof (cases "first_match rules n")
      case None
      with True skip show ?thesis
        by (simp add: organize_loop_Cons[OF pn] del: organize_loop.simps)
    next
      case (Some f)
      show ?thesis
      proof (cases "shutil_move (files w) (?D @ [n]) (folder_dir cwd d f @ [n])")
        case (Inl e)
        with True Some show ?thesis
          by (simp add: organize_loop_Cons[OF pn] option.map_ident del: organize_loop.simps)
      next
        case (Inr fs')
        let ?w = "logging_info asctime (Moved n f) (w\<lparr>files := fs'\<rparr>)"
        let ?r = "organize_loop asctime cwd rules d rest ?w (counter_incr c f)"
        have r: "organize_loop asctime cwd rules d (n # rest) w c = ?r"
          using True Some Inr by (simp add: organize_loop_Cons[OF pn] del: organize_loop.simps)
        from Cons.prems(3) True Some have qn: "q = [] \<or> last q \<noteq> n" by auto
        have 1: "lookup fs' q = lookup (files w) q"
          using shutil_move_frame_last[OF Inr, of q] qn by simp
        have "q = [] \<or> (\<forall>f. \<not> (last q \<in> set rest \<and> routed cwd rules d (files ?w) (last q) f))"
          using Cons.prems(3) move_keeps_routed[OF Inr dn] by auto
        from Cons.IH[OF pr dr this, where c="counter_incr c f"]
        have 2: "lookup (files (ostate ?r)) q
                 = map_option (appended (written asctime ?w (ostate ?r))) (lookup (files ?w) q)" .
        obtain evs where "log (ostate ?r) = log ?w @ evs"
          using organize_loop_log_grows[of asctime cwd rules d rest ?w "counter_incr c f"] by blast
        then have 3: "written asctime w (ostate ?r)
              = format_record asctime (length (log w)) (Moved n f) @ written asctime ?w (ostate ?r)"
          by (intro written_step) simp_all
        show ?thesis
          unfolding r 2 3 by (simp add: lookup_emit 1 map_option_appended)
      qed
    qed
  qed
qed

lemma organize_loop_frame:
  assumes "organize_loop asctime cwd rules d names w c = Inr (w', c')" "list_all plain_name names"
    "distinct names"
    and "q = [] \<or> (\<forall>f. \<not> (last q \<in> set names \<and> routed cwd rules d (files w) (last q) f))"
  shows "lookup (files w') q = map_option (appended (written asctime w w')) (lookup (files w) q)"
  using organize_loop_frame_any[OF assms(2,3,4), of asctime c] assms(1) by simp

lemma organize_loop_written_step:
  assumes "organize_loop asctime cwd rules d names (logging_info asctime ev w0) c = Inr (w', c')"
    and "log w0 = log w"
  shows "written asctime w w'
         = format_record asctime (length (log w)) ev @ written asctime (logging_info asctime ev w0) w'"
proof -
  obtain evs where "log w' = log (logging_info asctime ev w0) @ evs"
    using organize_loop_log_grows[of asctime cwd rules d names "logging_info asctime ev w0" c] assms(1)
    by auto
  then show ?thesis by (intro written_step) (simp_all add: assms(2))
qed

lemma organize_loop_routed_rest:
  assumes "shutil_move fs (source_dir cwd d @ [n]) (P @ [n]) = Inr fs'" "n \<notin> set rest"
  shows "filter (\<lambda>m. routed cwd rules d fs' m f) rest = filter (\<lambda>m. routed cwd rules d fs m f) rest"
  by (rule filter_cong) (use move_keeps_routed[OF assms] in auto)

lemma organize_loop_counts:
  assumes "organize_loop asctime cwd rules d names w c = Inr (w', c')" "list_all plain_name names"
    "distinct names"
  shows "counter_get c' f =
         counter_get c f + length (filter (\<lambda>n. routed cwd rules d (files w) n f) names)"
  using assms
proof (induction names arbitrary: w c)
  case Nil
  then show ?case by simp
next
  case (Cons n rest)
  from Cons.prems(2) have pn: "plain_name n" and pr: "list_all plain_name rest" by auto
  from Cons.prems(3) have dn: "n \<notin> set rest" and dr: "distinct rest" by auto
  from Cons.prems(1) pn show ?case
  proof (cases rule: organize_loop_step)
    case skip
    from Cons.IH[OF skip(2) pr dr] skip(1) show ?thesis by simp
  next
    case (move g fs')
    have cg: "counter_get (counter_incr c g) f = counter_get c f + (if f = g then 1 else 0)"
      by (simp add: counter_get_def counter_incr_def update_conv')
    from Cons.IH[OF move(3) pr dr] organize_loop_routed_rest[OF move(2) dn, of rules f]
      move(1) cg show ?thesis by auto
  qed
qed

lemma organize_loop_moved:
  assumes "organize_loop asctime cwd rules d names w c = Inr (w', c')" "list_all plain_name names"
    "distinct names" "x \<in> set names" "routed cwd rules d (files w) x f"
  shows "lookup (files w') (landing (files w) (folder_dir cwd d f @ [x]) x)
           = map_option (appended (written asctime w w')) (lookup (files w) (source_dir cwd d @ [x])) \<and>
         (landing (files w) (folder_dir cwd d f @ [x]) x \<noteq> source_dir cwd d @ [x]
            \<longrightarrow> lookup (files w') (source_dir cwd d @ [x]) = None)"
  using assms
proof (induction names arbitrary: w c)
  case Nil
  then show ?case by simp
next
  case (Cons n rest)
  from Cons.prems(2) have pn: "plain_name n" and pr: "list_all plain_name rest" by auto
  from Cons.prems(3) have dn: "n \<notin> set rest" and dr: "distinct rest" by auto
  let ?D = "source_dir cwd d"
  from Cons.prems(1) pn show ?case
  proof (cases rule: organize_loop_step)
    case skip
    with Cons.prems(4,5) have "x \<in> set rest" by auto
    from Cons.IH[OF skip(2) pr dr this Cons.prems(5)] show ?thesis .
  next
    case (move g fs')
    let ?w = "logging_info asctime (Moved n g) (w\<lparr>files := fs'\<rparr>)"
    let ?line = "format_record asctime (length (log w)) (Moved n g)"
    have dir: "\<And>q. is_dir (files ?w) q = is_dir (files w) q"
      using shutil_move_is_dir[OF move(2)] by simp
    have wr: "written asctime w w' = ?line @ written asctime ?w w'"
      by (rule organize_loop_written_step[OF move(3)]) simp
    show ?thesis
    proof (cases "x = n")
      case True
      with move(1) Cons.prems(5) have fg: "f = g" by simp
      let ?L = "landing (files w) (folder_dir cwd d g @ [n]) n"
      have last: "last ?L = n" by (simp add: landing_last)
      have L: "?L \<noteq> []" by (rule landing_not_Nil)
      have 1: "lookup (files w') ?L
               = map_option (appended (written asctime ?w w')) (lookup (files ?w) ?L)"
        using organize_loop_frame[OF move(3) pr dr, of ?L] dn last by simp
      have 2: "lookup (files w') (?D @ [n])
               = map_option (appended (written asctime ?w w')) (lookup (files ?w) (?D @ [n]))"
        using organize_loop_frame[OF move(3) pr dr, of "?D @ [n]"] dn by simp
      from 1 2 show ?thesis
        unfolding True fg wr
        by (simp add: lookup_emit shutil_move_lookup[OF move(2)] map_option_appended)
    next
      case False
      with Cons.prems(4) have xr: "x \<in> set rest" by simp
      with move_keeps_routed[OF move(2) dn] Cons.prems(5)
      have "routed cwd rules d (files ?w) x f" by simp
      from Cons.IH[OF move(3) pr dr xr this]
      have "lookup (files w') (landing (files ?w) (folder_dir cwd d f @ [x]) x)
              = map_option (appended (written asctime ?w w')) (lookup (files ?w) (?D @ [x])) \<and>
            (landing (files ?w) (folder_dir cwd d f @ [x]) x \<noteq> ?D @ [x]
               \<longrightarrow> lookup (files w') (?D @ [x]) = None)" .
      moreover have "landing (files ?w) (folder_dir cwd d f @ [x]) x
                     = landing (files w) (folder_dir cwd d f @ [x]) x"
        by (rule landing_cong) (rule dir)
      moreover have "lookup fs' (?D @ [x]) = lookup (files w) (?D @ [x])"
        using shutil_move_frame_last[OF move(2), of "?D @ [x]"] False by simp
      ultimately show ?thesis
        unfolding wr by (simp add: lookup_emit map_option_appended)
    qed
  qed
qed

lemma organize_loop_log:
  assumes "organize_loop asctime cwd rules d names w c = Inr (w', c')" "list_all plain_name names"
    "distinct names"
  shows "log w' = log w @ map (\<lambda>n. Moved n (the (first_match rules n)))
           (filter (\<lambda>n. is_file (files w) (source_dir cwd d @ [n]) \<and> first_match rules n \<noteq> None)
              names)"
  using assms
proof (induction names arbitrary: w c)
  case Nil
  then show ?case by simp
next
  case (Cons n rest)
  from Cons.prems(2) have pn: "plain_name n" and pr: "list_all plain_name rest" by auto
  from Cons.prems(3) have dn: "n \<notin> set rest" and dr: "distinct rest" by auto
  from Cons.prems(1) pn show ?case
  proof (cases rule: organize_loop_step)
    case skip
    from Cons.IH[OF skip(2) pr dr] skip(1) show ?thesis by auto
  next
    case (move g fs')
    have "filter (\<lambda>m. is_file fs' (source_dir cwd d @ [m]) \<and> first_match rules m \<noteq> None) rest
        = filter (\<lambda>m. is_file (files w) (source_dir cwd d @ [m]) \<and> first_match rules m \<noteq> None) rest"
      by (rule filter_cong) (use move_keeps_routed[OF move(2) dn] in auto)
    with Cons.IH[OF move(3) pr dr] move(1) show ?thesis by simp
  qed
qed

lemma counter_incr_sum: "sum_list (map snd (counter_incr c k)) = sum_list (map snd c) + 1"
proof -
  have "sum_list (map snd (AList.update k (counter_get c k + v) c)) = sum_list (map snd c) + v" for v
    by (induction c) (auto simp: counter_get_def)
  from this[of 1] show ?thesis by (simp add: counter_incr_def)
qed

lemma organize_loop_total:
  assumes "organize_loop asctime cwd rules d names w c = Inr (w', c')" "list_all plain_name names"
    "distinct names"
  shows "sum_list (map snd c') = sum_list (map snd c) +
           length (filter (\<lambda>n. is_file (files w) (source_dir cwd d @ [n]) \<and> first_match rules n \<noteq> None)
              names)"
  using assms
proof (induction names arbitrary: w c)
  case Nil
  then show ?case by simp
next
  case (Cons n rest)
  from Cons.prems(2) have pn: "plain_name n" and pr: "list_all plain_name rest" by auto
  from Cons.prems(3) have dn: "n \<notin> set rest" and dr: "distinct rest" by auto
  from Cons.prems(1) pn show ?case
  proof (cases rule: organize_loop_step)
    case skip
    from Cons.IH[OF skip(2) pr dr] skip(1) show ?thesis by auto
  next
    case (move g fs')
    have "filter (\<lambda>m. is_file fs' (source_dir cwd d @ [m]) \<and> first_match rules m \<noteq> None) rest
        = filter (\<lambda>m. is_file (files w) (source_dir cwd d @ [m]) \<and> first_match rules m \<noteq> None) rest"
      by (rule filter_cong) (use move_keeps_routed[OF move(2) dn] in auto)
    with Cons.IH[OF move(3) pr dr] move(1) show ?thesis by (simp add: counter_incr_sum)
  qed
qed

lemma organize_loop_keys:
  assumes "organize_loop asctime cwd rules d names w c = Inr (w', c')" "list_all plain_name names"
    "distinct names" "k \<in> fst ` set (files w')"
  shows "k \<in> fst ` set (files w) \<or>
         (\<exists>n f. n \<in> set names \<and> routed cwd rules d (files w) n f \<and>
                 k = landing (files w) (folder_dir cwd d f @ [n]) n)"
  using assms
proof (induction names arbitrary: w c)
  case Nil
  then show ?case by simp
next
  case (Cons n rest)
  from Cons.prems(2) have pn: "plain_name n" and pr: "list_all plain_name rest" by auto
  from Cons.prems(3) have dn: "n \<notin> set rest" and dr: "distinct rest" by auto
  from Cons.prems(1) pn show ?case
  proof (cases rule: organize_loop_step)
    case skip
    from Cons.IH[OF skip(2) pr dr Cons.prems(4)] show ?thesis by auto
  next
    case (move g fs')
    let ?w = "logging_info asctime (Moved n g) (w\<lparr>files := fs'\<rparr>)"
    have dir: "\<And>q. is_dir (files ?w) q = is_dir (files w) q"
      using shutil_move_is_dir[OF move(2)] by simp
    from Cons.IH[OF move(3) pr dr Cons.prems(4)]
    consider "k \<in> fst ` set fs'"
      | m f where "m \<in> set rest" "routed cwd rules d fs' m f"
          "k = landing fs' (folder_dir cwd d f @ [m]) m"
      by auto
    then show ?thesis
    proof cases
      case 1
      with shutil_move_keys[OF move(2)] move(1) show ?thesis by auto
    next
      case 2
      from 2(1,2) move_keeps_routed[OF move(2) dn] have "routed cwd rules d (files w) m f"
        by simp
      moreover have "k = landing (files w) (folder_dir cwd d f @ [m]) m"
        using 2(3) landing_cong[of fs' "files w"] dir by simp
      ultimately show ?thesis using 2(1) by auto
    qed
  qed
qed

lemma plain_path_append: "plain_path (p @ q) \<longleftrightarrow> plain_path p \<and> plain_path q"
  by (simp add: plain_path_def)

lemma plain_path_landing: "plain_path dst \<Longrightarrow> plain_name n \<Longrightarrow> plain_path (landing fs dst n)"
  by (simp add: landing_def plain_path_def)

lemma shutil_move_wf:
  assumes "shutil_move fs src dst = Inr fs'" "wf_fs fs" "plain_path dst" "plain_name (last src)"
  shows "wf_fs fs'"
proof -
  have "k \<noteq> [] \<and> plain_path k" if "(k, e) \<in> set fs'" for k e
  proof -
    from that have "k \<in> fst ` set fs'" by force
    with shutil_move_keys[OF assms(1)]
    have "k = landing fs dst (last src) \<or> k \<in> fst ` set fs" by auto
    then show ?thesis
      using assms(2-4) landing_not_Nil plain_path_landing
      by (auto simp: wf_fs_def list_all_iff)
  qed
  with shutil_move_distinct[OF assms(1)] assms(2) show ?thesis
    by (auto simp: wf_fs_def list_all_iff)
qed

lemma plain_folder_dir: "plain_path cwd \<Longrightarrow> plain_path (folder_dir cwd d f)"
  by (intro plain_path_locate plain_path_truediv plain_path_Path)

lemma plain_source_dir: "plain_path cwd \<Longrightarrow> plain_path (source_dir cwd d)"
  by (intro plain_path_locate plain_path_Path)

lemma organize_loop_wf:
  assumes "organize_loop asctime cwd rules d names w c = Inr (w', c')" "list_all plain_name names"
    "wf_fs (files w)" "plain_path cwd"
  shows "wf_fs (files w')"
  using assms
proof (induction names arbitrary: w c)
  case Nil
  then show ?case by simp
next
  case (Cons n rest)
  from Cons.prems(2) have pn: "plain_name n" and pr: "list_all plain_name rest" by auto
  from Cons.prems(1) pn show ?case
  proof (cases rule: organize_loop_step)
    case skip
    from Cons.IH[OF skip(2) pr Cons.prems(3,4)] show ?thesis .
  next
    case (move g fs')
    have "wf_fs fs'"
      using shutil_move_wf[OF move(2) Cons.prems(3)] pn plain_folder_dir[OF Cons.prems(4)]
      by (simp add: plain_path_append plain_path_def)
    with Cons.IH[OF move(3) pr _ Cons.prems(4)] show ?thesis by simp
  qed
qed


subsection \<open>The stage as a whole\<close>

lemma names_in_append: "names_in (xs @ ys) p = names_in xs p @ names_in ys p"
  by (simp add: names_in_def)

lemma grows_filter_files:
  assumes "grows fs A fs1"
  shows "filter (\<lambda>n. is_file fs1 (p @ [n]) \<and> Q n) (names_in fs1 p)
       = filter (\<lambda>n. is_file fs (p @ [n]) \<and> Q n) (names_in fs p)"
proof -
  from assms obtain ks where ks: "fs1 = fs @ map (\<lambda>k. (k, Dir)) ks"
    "\<forall>k\<in>set ks. lookup fs k = None"
    unfolding grows_def by blast
  have "\<not> is_file fs (p @ [n])" if "n \<in> set (names_in (map (\<lambda>k. (k, Dir)) ks) p)" for n
  proof -
    from that have "p @ [n] \<in> set ks" by (auto simp: names_in_mem)
    with ks(2) show ?thesis by (auto simp: is_file_lookup)
  qed
  then have "filter (\<lambda>n. is_file fs (p @ [n]) \<and> Q n) (names_in (map (\<lambda>k. (k, Dir)) ks) p) = []"
    by (auto simp: filter_empty_conv)
  then show ?thesis
    by (simp add: ks(1)[symmetric] grows_is_file[OF assms])
      (simp add: ks(1) names_in_append)
qed

lemma prefix_plain: "plain_path p \<Longrightarrow> prefix k p \<Longrightarrow> plain_path k"
  by (auto simp: prefix_def plain_path_append)

lemma organize_files_Inr:
  assumes "organize_files asctime cwd rules d w = Inr (w', c')" "wf_fs (files w)" "plain_path cwd"
  obtains fs1 A where "make_folders cwd d rules (files w) = Inr fs1"
    "grows (files w) A fs1" "A = (\<Union>f\<in>fst ` set rules. set (prefixes (folder_dir cwd d f)))"
    "wf_fs fs1" "is_dir fs1 (source_dir cwd d)"
    "organize_loop asctime cwd rules d (names_in fs1 (source_dir cwd d)) (w\<lparr>files := fs1\<rparr>) [] = Inr (w', c')"
    "list_all plain_name (names_in fs1 (source_dir cwd d))"
    "distinct (names_in fs1 (source_dir cwd d))"
proof -
  let ?D = "source_dir cwd d"
  let ?A = "\<Union>f\<in>fst ` set rules. set (prefixes (folder_dir cwd d f))"
  from assms(1) obtain fs1 where m: "make_folders cwd d rules (files w) = Inr fs1"
    by (auto simp: organize_files_def split: sum.splits)
  with assms(1) have l: "os_listdir_str cwd fs1 d = Inr (names_in fs1 ?D)"
    and dir: "is_dir fs1 ?D"
    and loop: "organize_loop asctime cwd rules d (names_in fs1 ?D) (w\<lparr>files := fs1\<rparr>) [] = Inr (w', c')"
    by (auto simp: organize_files_def os_listdir_str_def os_listdir_def
        split: sum.splits if_splits option.splits)
  have g: "grows (files w) ?A fs1" by (rule make_folders_grows[OF m])
  have "\<forall>k\<in>?A. plain_path k"
    by (auto simp: in_set_prefixes intro!: prefix_plain[OF plain_folder_dir[OF assms(3)]])
  from grows_wf[OF g assms(2) this] have wf: "wf_fs fs1" .
  have "list_all plain_name (names_in fs1 ?D)"
    using wf_fs_names_plain[OF wf] by (auto simp: list_all_iff)
  moreover have "distinct (names_in fs1 ?D)"
    using wf by (auto simp: wf_fs_def intro: names_in_distinct)
  ultimately show ?thesis using that[OF m g refl wf dir loop] by blast
qed

lemma is_file_listed: "is_file fs (p @ [n]) \<Longrightarrow> n \<in> set (names_in fs p)"
  by (auto simp: names_in_mem is_file_lookup lookup_def dest: map_of_SomeD intro: rev_image_eqI)

lemma moves_of_map_Moved: "moves_of (map (\<lambda>n. Moved n (g n)) xs) = map (\<lambda>n. (n, g n)) xs"
  by (induction xs) auto

subsection \<open>What a finished loop leaves in the download directory\<close>

lemma organize_loop_removed:
  assumes "organize_loop asctime cwd rules d names w c = Inr (w', c')" "list_all plain_name names"
    "lookup (files w) q \<noteq> None" "lookup (files w') q = None"
  shows "\<exists>n\<in>set names. q = source_dir cwd d @ [n]"
  using assms
proof (induction names arbitrary: w c)
  case Nil
  then show ?case by simp
next
  case (Cons n rest)
  from Cons.prems(2) have pn: "plain_name n" and pr: "list_all plain_name rest" by auto
  from Cons.prems(1) pn show ?case
  proof (cases rule: organize_loop_step)
    case skip
    from Cons.IH[OF skip(2) pr Cons.prems(3,4)] show ?thesis by auto
  next
    case (move g fs')
    show ?thesis
    proof (cases "lookup fs' q = None")
      case True
      with Cons.prems(3) shutil_move_lookup[OF move(2), of q] shutil_move_src[OF move(2)]
      have "q = source_dir cwd d @ [n]"
        by (auto simp: is_file_lookup split: if_splits)
      then show ?thesis by simp
    next
      case False
      with Cons.IH[OF move(3) pr _ Cons.prems(4)] show ?thesis by (auto simp: lookup_emit)
    qed
  qed
qed

lemma organize_loop_landing_free:
  assumes "organize_loop asctime cwd rules d names w c = Inr (w', c')" "list_all plain_name names"
    "distinct names" "x \<in> set names" "routed cwd rules d (files w) x f"
    "is_dir (files w) (folder_dir cwd d f @ [x])"
  shows "lookup (files w) (folder_dir cwd d f @ [x, x]) = None"
  using assms
proof (induction names arbitrary: w c)
  case Nil
  then show ?case by simp
next
  case (Cons n rest)
  from Cons.prems(2) have pn: "plain_name n" and pr: "list_all plain_name rest" by auto
  from Cons.prems(3) have dn: "n \<notin> set rest" and dr: "distinct rest" by auto
  from Cons.prems(1) pn show ?case
  proof (cases rule: organize_loop_step)
    case skip
    with Cons.prems(4,5) have "x \<in> set rest" by auto
    from Cons.IH[OF skip(2) pr dr this Cons.prems(5,6)] show ?thesis .
  next
    case (move g fs')
    let ?w = "logging_info asctime (Moved n g) (w\<lparr>files := fs'\<rparr>)"
    show ?thesis
    proof (cases "x = n")
      case True
      with move(1) Cons.prems(5) have fg: "f = g" by simp
      from shutil_move_Inr[OF move(2)] Cons.prems(6) show ?thesis
        unfolding True fg by (auto simp: landing_def)
    next
      case False
      with Cons.prems(4) have xr: "x \<in> set rest" by simp
      with move_keeps_routed[OF move(2) dn] Cons.prems(5)
      have r: "routed cwd rules d (files ?w) x f" by simp
      have d: "is_dir (files ?w) (folder_dir cwd d f @ [x])"
        using shutil_move_is_dir[OF move(2)] Cons.prems(6) by simp
      from Cons.IH[OF move(3) pr dr xr r d]
      have "lookup fs' (folder_dir cwd d f @ [x, x]) = None" by (simp add: lookup_emit)
      with shutil_move_frame_last[OF move(2), of "folder_dir cwd d f @ [x, x]"] False
      show ?thesis by simp
    qed
  qed
qed

lemma organize_loop_leaves_unmatched:
  assumes "organize_loop asctime cwd rules d names w c = Inr (w', c')" "list_all plain_name names"
    "distinct names"
    and all: "\<forall>m. is_file (files w) (source_dir cwd d @ [m]) \<longrightarrow> m \<in> set names"
    and ne: "list_all (\<lambda>(f, exts). folder_dir cwd d f \<noteq> source_dir cwd d) rules"
    and "is_file (files w') (source_dir cwd d @ [m])"
  shows "first_match rules m = None"
proof (rule ccontr)
  let ?D = "source_dir cwd d"
  assume "first_match rules m \<noteq> None"
  then obtain f where f: "first_match rules m = Some f" by auto
  have fin: "f \<in> fst ` set rules" using f
    by (induction rules) (auto split: if_splits)
  with ne have neq: "folder_dir cwd d f \<noteq> ?D" by (force simp: list_all_iff)
  show False
  proof (cases "is_file (files w) (?D @ [m])")
    case True
    with all have mn: "m \<in> set names" by simp
    have r: "routed cwd rules d (files w) m f" using True f by simp
    have "landing (files w) (folder_dir cwd d f @ [m]) m \<noteq> ?D @ [m]"
    proof (cases "is_dir (files w) (folder_dir cwd d f @ [m])")
      case True
      have "lookup (files w) ((folder_dir cwd d f @ [m]) @ [m]) = None"
        using organize_loop_landing_free[OF assms(1-3) mn r True] by simp
      moreover have "lookup (files w) (?D @ [m]) \<noteq> None"
        using \<open>is_file (files w) (?D @ [m])\<close> by (auto simp: is_file_lookup)
      ultimately have "(folder_dir cwd d f @ [m]) @ [m] \<noteq> ?D @ [m]" by metis
      then show ?thesis by (simp add: landing_def True)
    next
      case False
      with neq show ?thesis by (simp add: landing_def)
    qed
    with organize_loop_moved[OF assms(1-3) mn r] assms(6) show False
      by (simp add: is_file_lookup)
  next
    case False
    have "lookup (files w') (?D @ [m])
          = map_option (appended (written asctime w w')) (lookup (files w) (?D @ [m]))"
      using organize_loop_frame[OF assms(1-3), of "?D @ [m]"] False by simp
    from is_file_appended[OF this] False assms(6) show False by simp
  qed
qed

lemma organize_loop_all_skip:
  assumes "list_all plain_name names"
    "\<forall>n\<in>set names. is_file (files w) (source_dir cwd d @ [n]) \<longrightarrow> first_match rules n = None"
  shows "organize_loop asctime cwd rules d names w c = Inr (w, c)"
  using assms
proof (induction names)
  case Nil
  then show ?case by simp
next
  case (Cons n rest)
  from Cons.prems(1) have pn: "plain_name n" by simp
  from Cons show ?case
    by (auto simp add: organize_loop_Cons[OF pn] simp del: organize_loop.simps)
qed

subsection \<open>When the folders loop cannot fail\<close>

lemma path_mkdir_direct:
  assumes "\<not> path_exists fs p" "is_dir fs (butlast p)"
  shows "path_mkdir ok fs p = Inr (fs @ [(p, Dir)])"
proof -
  from assms(2) have e: "dir_status fs (butlast p) = None" by simp
  have "os_mkdir fs p = Inr (fs @ [(p, Dir)])"
    using assms(1) by (simp add: os_mkdir_def e del: dir_status_None)
  then show ?thesis by (subst path_mkdir.simps) simp
qed

lemma make_folders_succeeds:
  assumes "list_all (\<lambda>(f, exts). path_exists fs (folder_dir cwd d f)
                       \<or> is_dir fs (butlast (folder_dir cwd d f))) rules"
  shows "\<exists>fs'. make_folders cwd d rules fs = Inr fs'"
  using assms
proof (induction rules arbitrary: fs)
  case Nil
  then show ?case by simp
next
  case (Cons a rules)
  obtain folder exts where a: "a = (folder, exts)" by (cases a)
  let ?p = "folder_dir cwd d folder"
  show ?case
  proof (cases "path_exists fs ?p")
    case True
    with Cons a show ?thesis by simp
  next
    case False
    with Cons.prems a have m: "path_mkdir False fs ?p = Inr (fs @ [(?p, Dir)])"
      by (simp add: path_mkdir_direct)
    have g: "grows fs {?p} (fs @ [(?p, Dir)])"
      using grows_snoc[OF grows_refl, of fs ?p "{}"] False by (simp add: path_exists_def)
    have "list_all (\<lambda>(f, exts). path_exists (fs @ [(?p, Dir)]) (folder_dir cwd d f)
                       \<or> is_dir (fs @ [(?p, Dir)]) (butlast (folder_dir cwd d f))) rules"
      using Cons.prems grows_lookup_old[OF g]
      by (auto simp: a list_all_iff path_exists_def is_dir_def)
    from Cons.IH[OF this] m False a show ?thesis by simp
  qed
qed

subsection \<open>The stage, whether it returns or fails\<close>

lemma make_folders_Inl_grows:
  "make_folders cwd d rules fs = Inl (e, fs') \<Longrightarrow>
   grows fs (\<Union>f\<in>fst ` set rules. set (prefixes (folder_dir cwd d f))) fs'"
proof (induction rules arbitrary: fs)
  case Nil
  then show ?case by simp
next
  case (Cons a rules)
  obtain folder exts where a: "a = (folder, exts)" by (cases a)
  let ?p = "folder_dir cwd d folder"
  show ?case
  proof (cases "path_exists fs ?p")
    case True
    with Cons.prems a have "make_folders cwd d rules fs = Inl (e, fs')" by simp
    from Cons.IH[OF this] show ?thesis by (rule grows_mono) auto
  next
    case False
    show ?thesis
    proof (cases "path_mkdir False fs ?p")
      case (Inl x)
      with False Cons.prems a have "fs' = fs" by simp
      then show ?thesis by (simp add: grows_refl)
    next
      case (Inr fs1)
      with False Cons.prems a have r: "make_folders cwd d rules fs1 = Inl (e, fs')" by simp
      from grows_trans[OF path_mkdir_grows[OF Inr] Cons.IH[OF r]] show ?thesis
        by (rule grows_mono) (auto simp: a)
    qed
  qed
qed

lemma organize_loop_log_any:
  assumes "list_all plain_name names"
  shows "\<exists>evs. log (ostate (organize_loop asctime cwd rules d names w c)) = log w @ evs \<and>
           (\<forall>m\<in>set (moves_of evs). first_match rules (fst m) = Some (snd m))"
  using assms
proof (induction names arbitrary: w c)
  case Nil
  then show ?case by simp
next
  case (Cons n rest)
  let ?D = "source_dir cwd d"
  from Cons.prems have pn: "plain_name n" and pr: "list_all plain_name rest" by auto
  note skip = Cons.IH[OF pr, where w=w and c=c]
  show ?case
  proof (cases "is_file (files w) (?D @ [n])")
    case False
    with skip show ?thesis by (simp add: organize_loop_Cons[OF pn] del: organize_loop.simps)
  next
    case True
    show ?thesis
    proof (cases "first_match rules n")
      case None
      with True skip show ?thesis
        by (simp add: organize_loop_Cons[OF pn] del: organize_loop.simps)
    next
      case (Some f)
      show ?thesis
      proof (cases "shutil_move (files w) (?D @ [n]) (folder_dir cwd d f @ [n])")
        case (Inl e)
        with True Some show ?thesis
          by (simp add: organize_loop_Cons[OF pn] del: organize_loop.simps)
      next
        case (Inr fs')
        let ?w = "logging_info asctime (Moved n f) (w\<lparr>files := fs'\<rparr>)"
        from Cons.IH[OF pr, where w="?w" and c="counter_incr c f"] obtain evs where
          evs: "log (ostate (organize_loop asctime cwd rules d rest ?w (counter_incr c f)))
                  = log ?w @ evs"
          "\<forall>m\<in>set (moves_of evs). first_match rules (fst m) = Some (snd m)"
          by blast
        have "log (ostate (organize_loop asctime cwd rules d (n # rest) w c)) = log w @ (Moved n f # evs)"
          using evs(1) True Some Inr
          by (simp add: organize_loop_Cons[OF pn] del: organize_loop.simps)
        moreover have "\<forall>m\<in>set (moves_of (Moved n f # evs)).
                          first_match rules (fst m) = Some (snd m)"
          using evs(2) Some by simp
        ultimately show ?thesis by blast
      qed
    qed
  qed
qed

section \<open>Facts about the deduplicate stage\<close>

subsection \<open>One round of the pass over a folder\<close>

lemma entry_kinds:
  obtains (other) "\<not> is_file fs p"
  | (locked) c l where "lookup fs p = Some (File c False l)"
  | (readable) c l where "lookup fs p = Some (File c True l)"
proof (cases "lookup fs p")
  case None
  then show ?thesis using other by (simp add: is_file_def)
next
  case (Some e)
  show ?thesis
  proof (cases e)
    case Dir
    with Some other show ?thesis by (simp add: is_file_def)
  next
    case (File c r l)
    with Some locked[of c l] readable[of c l] show ?thesis by (cases r) auto
  qed
qed

lemma dedup_loop_other:
  assumes "plain_name n" "\<not> is_file (files w) (locate cwd pp @ [n])"
  shows "dedup_loop asctime H cwd pp folder (n # rest) seen w
         = dedup_loop asctime H cwd pp folder rest seen w"
  using assms by (simp add: locate_truediv_plain)

lemma dedup_loop_locked:
  assumes "plain_name n" "lookup (files w) (locate cwd pp @ [n]) = Some (File c False l)"
  shows "dedup_loop asctime H cwd pp folder (n # rest) seen w = Inl (PermissionError, w)"
  using assms by (simp add: locate_truediv_plain is_file_def read_bytes_def)

lemma dedup_loop_fresh:
  assumes "plain_name n" "lookup (files w) (locate cwd pp @ [n]) = Some (File c True l)"
    "H c \<notin> seen"
  shows "dedup_loop asctime H cwd pp folder (n # rest) seen w
         = dedup_loop asctime H cwd pp folder rest (insert (H c) seen) w"
  using assms by (simp add: locate_truediv_plain is_file_def read_bytes_def)

lemma dedup_loop_dup:
  assumes "plain_name n" "lookup (files w) (locate cwd pp @ [n]) = Some (File c True l)"
    "H c \<in> seen"
  shows "dedup_loop asctime H cwd pp folder (n # rest) seen w
         = dedup_loop asctime H cwd pp folder rest seen
             (logging_info asctime (RemovedDuplicate n folder)
                (w\<lparr>files := AList.delete (locate cwd pp @ [n]) (files w)\<rparr>))"
  using assms by (simp add: locate_truediv_plain is_file_def read_bytes_def os_remove_def)

lemma is_dup_skip:
  assumes "digest_at H fs (p @ [n]) = None" "m \<noteq> n"
  shows "is_dup H fs p (n # rest) seen m = is_dup H fs p rest seen m"
  using assms by (auto simp: is_dup_def split: option.splits)

lemma is_dup_fresh:
  assumes "digest_at H fs (p @ [n]) = Some h" "m \<noteq> n"
  shows "is_dup H fs p (n # rest) seen m = is_dup H fs p rest (insert h seen) m"
  using assms by (auto simp: is_dup_def split: option.splits)

lemma is_dup_seen:
  assumes "digest_at H fs (p @ [n]) = Some h" "h \<in> seen" "m \<noteq> n"
  shows "is_dup H fs p (n # rest) seen m = is_dup H fs p rest seen m"
  using assms by (auto simp: is_dup_def split: option.splits)

lemma is_dup_cong:
  assumes "\<forall>m\<in>set names. digest_at H fs' (p @ [m]) = digest_at H fs (p @ [m])" "n \<in> set names"
  shows "is_dup H fs' p names seen n = is_dup H fs p names seen n"
proof -
  have "list_ex (\<lambda>m. digest_at H fs' (p @ [m]) = Some h) (takeWhile (\<lambda>m. m \<noteq> n) names)
      = list_ex (\<lambda>m. digest_at H fs (p @ [m]) = Some h) (takeWhile (\<lambda>m. m \<noteq> n) names)" for h
    unfolding list_ex_iff using assms(1) by (metis set_takeWhileD)
  with assms show ?thesis by (simp add: is_dup_def split: option.splits)
qed

lemma takeWhile_either:
  "n \<in> set xs \<Longrightarrow> m \<in> set xs \<Longrightarrow> n \<noteq> m \<Longrightarrow>
   n \<in> set (takeWhile (\<lambda>x. x \<noteq> m) xs) \<or> m \<in> set (takeWhile (\<lambda>x. x \<noteq> n) xs)"
  by (induction xs) auto

lemma takeWhile_filter_subset:
  "Q n \<Longrightarrow> set (takeWhile (\<lambda>x. x \<noteq> n) (filter Q xs)) \<subseteq> set (takeWhile (\<lambda>x. x \<noteq> n) xs)"
  by (induction xs) auto

lemma digest_at_listed: "digest_at H fs (p @ [n]) \<noteq> None \<Longrightarrow> n \<in> set (names_in fs p)"
  by (rule is_file_listed) (auto simp: digest_at_def is_file_def split: option.splits entry.splits)

lemma steady_same:
  "steady fs q \<Longrightarrow> map_option (appended t) (lookup fs q) = lookup fs q"
  by (cases "lookup fs q") (auto simp: steady_def split: entry.splits)

subsection \<open>States that only lose entries\<close>

lemma delete_restrict: "AList.delete k fs = AList.restrict (- {k}) fs"
  unfolding AList.delete_eq AList.restrict_eq by (rule filter_cong) auto

lemma lookup_restrict:
  "lookup (AList.restrict A fs) q = (if q = [] then Some Dir else if q \<in> A then lookup fs q else None)"
  by (simp add: lookup_def restr_conv' restrict_map_def)

lemma names_in_restrict:
  "names_in (AList.restrict A fs) p = filter (\<lambda>n. p @ [n] \<in> A) (names_in fs p)"
proof -
  have "filter (\<lambda>(k, e). k \<noteq> [] \<and> butlast k = p) (filter (\<lambda>(k, v). k \<in> A) fs)
      = filter ((\<lambda>n. p @ [n] \<in> A) \<circ> (\<lambda>(k, e). last k)) (filter (\<lambda>(k, e). k \<noteq> [] \<and> butlast k = p) fs)"
    unfolding filter_filter
    by (rule filter_cong) (auto simp: append_butlast_last_id)
  then show ?thesis
    by (simp add: names_in_def AList.restrict_eq filter_map)
qed

lemma wf_restrict: "wf_fs fs \<Longrightarrow> wf_fs (AList.restrict A fs)"
proof -
  assume a: "wf_fs fs"
  have "set (AList.restrict A fs) \<subseteq> set fs" by (auto simp: AList.restrict_eq)
  with a show ?thesis
    by (auto simp: wf_fs_def list_all_iff intro: distinct_restr)
qed

lemma only_lost_refl: "only_lost asctime w P w"
  unfolding only_lost_def
  by (rule exI[of _ "{}"], rule exI[of _ "[]"]) (simp add: AList.restrict_eq)

lemma only_lost_mono: "only_lost asctime w P w' \<Longrightarrow> (\<And>k. P k \<Longrightarrow> Q k) \<Longrightarrow> only_lost asctime w Q w'"
  unfolding only_lost_def by blast

lemma only_lost_remove:
  assumes "P k"
  shows "only_lost asctime w P
           (logging_info asctime ev (w\<lparr>files := AList.delete k (files w)\<rparr>))"
  unfolding only_lost_def using assms
  by (intro exI[of _ "{k}"] exI[of _ "[ev]"]) (simp add: delete_restrict)

lemma only_lost_log: "only_lost asctime w P w' \<Longrightarrow> \<exists>evs. log w' = log w @ evs"
  unfolding only_lost_def by blast

lemma only_lost_trans:
  assumes "only_lost asctime w P w1" "only_lost asctime w1 Q w2"
    "\<And>k. Q k \<Longrightarrow> lookup (files w1) k \<noteq> None \<Longrightarrow> P k"
  shows "only_lost asctime w P w2"
proof -
  from assms(1) obtain K xs where K: "log w1 = log w @ xs"
    "files w1 = emit (log_text asctime (length (log w)) xs) (AList.restrict (- K) (files w))"
    "\<forall>k\<in>K. P k"
    unfolding only_lost_def by blast
  from assms(2) obtain L ys where L: "log w2 = log w1 @ ys"
    "files w2 = emit (log_text asctime (length (log w1)) ys) (AList.restrict (- L) (files w1))"
    "\<forall>k\<in>L. Q k"
    unfolding only_lost_def by blast
  let ?L = "{k\<in>L. lookup (files w1) k \<noteq> None}"
  have "AList.restrict (- L) (files w1) = AList.restrict (- ?L) (files w1)"
    unfolding AList.restrict_eq
    by (rule filter_cong) (auto simp: lookup_None_iff intro: rev_image_eqI)
  then have "files w2 = emit (log_text asctime (length (log w)) (xs @ ys))
                          (AList.restrict (- (K \<union> ?L)) (files w))"
    unfolding L(2) K(2) by (simp add: K(1) emit_restrict log_text_append Int_commute)
  moreover have "\<forall>k\<in>K \<union> ?L. P k" using K(3) L(3) assms(3) by auto
  moreover have "log w2 = log w @ (xs @ ys)" using K(1) L(1) by simp
  ultimately show ?thesis unfolding only_lost_def by blast
qed

lemma only_lost_lookup:
  assumes "only_lost asctime w P w'"
  shows "lookup (files w') q = map_option (appended (written asctime w w')) (lookup (files w) q)
         \<or> (lookup (files w') q = None \<and> P q)"
proof -
  from assms obtain K evs where K: "log w' = log w @ evs"
    "files w' = emit (log_text asctime (length (log w)) evs) (AList.restrict (- K) (files w))"
    "\<forall>k\<in>K. P k"
    unfolding only_lost_def by blast
  from K(1) have "written asctime w w' = log_text asctime (length (log w)) evs"
    by (rule written_eq)
  with K(2,3) show ?thesis
    by (auto simp: lookup_emit lookup_restrict)
qed

lemma only_lost_keeps:
  "only_lost asctime w P w' \<Longrightarrow> \<not> P q \<Longrightarrow>
   lookup (files w') q = map_option (appended (written asctime w w')) (lookup (files w) q)"
  using only_lost_lookup by blast

lemma only_lost_is_dir:
  "only_lost asctime w P w' \<Longrightarrow> \<not> P q \<Longrightarrow> is_dir (files w') q = is_dir (files w) q"
proof -
  assume "only_lost asctime w P w'" "\<not> P q"
  from only_lost_keeps[OF this] show ?thesis
    by (cases "lookup (files w) q") (auto simp: is_dir_def)
qed

lemma only_lost_wf: "only_lost asctime w P w' \<Longrightarrow> wf_fs (files w) \<Longrightarrow> wf_fs (files w')"
  unfolding only_lost_def by (auto simp: wf_restrict)

lemma only_lost_names:
  "only_lost asctime w P w' \<Longrightarrow> set (names_in (files w') p) \<subseteq> set (names_in (files w) p)"
  unfolding only_lost_def by (auto simp: names_in_restrict)

lemma only_lost_names_same:
  assumes "only_lost asctime w P w'" "\<And>n. \<not> P (p @ [n])"
  shows "names_in (files w') p = names_in (files w) p"
proof -
  from assms(1) obtain K evs where K:
    "files w' = emit (log_text asctime (length (log w)) evs) (AList.restrict (- K) (files w))"
    "\<forall>k\<in>K. P k"
    unfolding only_lost_def by blast
  from K(2) assms(2) have "\<And>n. p @ [n] \<in> - K" by auto
  then show ?thesis by (simp add: K(1) names_in_restrict)
qed

lemma only_lost_names_filter:
  assumes "only_lost asctime w P w'"
  shows "names_in (files w') p = filter (\<lambda>n. lookup (files w') (p @ [n]) \<noteq> None) (names_in (files w) p)"
proof -
  from assms obtain K evs where K:
    "files w' = emit (log_text asctime (length (log w)) evs) (AList.restrict (- K) (files w))"
    unfolding only_lost_def by blast
  have "filter (\<lambda>n. p @ [n] \<in> - K) (names_in (files w) p)
      = filter (\<lambda>n. lookup (files w') (p @ [n]) \<noteq> None) (names_in (files w) p)"
  proof (rule filter_cong[OF refl])
    fix n assume "n \<in> set (names_in (files w) p)"
    then have "lookup (files w) (p @ [n]) \<noteq> None"
      by (simp add: names_in_mem lookup_None_iff)
    then show "(p @ [n] \<in> - K) = (lookup (files w') (p @ [n]) \<noteq> None)"
      by (simp add: K lookup_emit lookup_restrict)
  qed
  then show ?thesis by (simp add: K names_in_restrict)
qed

lemma readable_back:
  assumes "only_lost asctime w P w'" "readable_file (files w') k"
  shows "readable_file (files w) k"
  using only_lost_lookup[OF assms(1), of k] assms(2)
  by (cases "lookup (files w) k") (auto simp: appended_eq_File)

lemma steady_forth:
  assumes "only_lost asctime w P w'" "steady (files w) k"
  shows "steady (files w') k"
  using only_lost_lookup[OF assms(1), of k] assms(2)
  by (cases "lookup (files w) k") (auto simp: steady_def split: entry.splits)

subsection \<open>The pass only deletes readable regular files of the folder\<close>

lemma dedup_loop_only_lost:
  assumes "list_all plain_name names"
  shows "only_lost asctime w
           (\<lambda>k. \<exists>n\<in>set names. k = locate cwd pp @ [n] \<and> readable_file (files w) k)
           (state_of (dedup_loop asctime H cwd pp folder names seen w))"
  using assms
proof (induction names arbitrary: seen w)
  case Nil
  then show ?case by (simp add: state_of_def only_lost_refl)
next
  case (Cons n rest)
  let ?p = "locate cwd pp"
  from Cons.prems have pn: "plain_name n" and pr: "list_all plain_name rest" by auto
  show ?case
  proof (cases "files w" "?p @ [n]" rule: entry_kinds)
    case other
    from Cons.IH[OF pr, of w seen] show ?thesis
      unfolding dedup_loop_other[OF pn other] by (rule only_lost_mono) auto
  next
    case (locked c l)
    show ?thesis
      unfolding dedup_loop_locked[OF pn locked] by (simp add: state_of_def only_lost_refl)
  next
    case (readable c l)
    show ?thesis
    proof (cases "H c \<in> seen")
      case False
      from Cons.IH[OF pr, of w "insert (H c) seen"] show ?thesis
        unfolding dedup_loop_fresh[where H=H and c=c, OF pn readable False] by (rule only_lost_mono) auto
    next
      case True
      let ?w = "logging_info asctime (RemovedDuplicate n folder)
                  (w\<lparr>files := AList.delete (?p @ [n]) (files w)\<rparr>)"
      let ?P = "\<lambda>k. \<exists>m\<in>set (n # rest). k = ?p @ [m] \<and> readable_file (files w) k"
      have 1: "only_lost asctime w ?P ?w"
        by (rule only_lost_remove) (use readable in auto)
      show ?thesis
        unfolding dedup_loop_dup[where H=H and c=c, OF pn readable True]
      proof (rule only_lost_trans[OF 1 Cons.IH[OF pr, of ?w seen]])
        fix k
        assume "\<exists>m\<in>set rest. k = ?p @ [m] \<and> readable_file (files ?w) k"
        then obtain m where m: "m \<in> set rest" "k = ?p @ [m]" "readable_file (files ?w) k"
          by blast
        from readable_back[OF 1 m(3)] m(1,2) show "?P k" by auto
      qed
    qed
  qed
qed

subsection \<open>The pass stops at a file that cannot be read\<close>

lemma dedup_loop_stops:
  assumes "list_all plain_name names" "x \<in> set names"
    "\<exists>c l. lookup (files w) (locate cwd pp @ [x]) = Some (File c False l)"
  shows "\<exists>w'. dedup_loop asctime H cwd pp folder names seen w = Inl (PermissionError, w') \<and>
           only_lost asctime w
             (\<lambda>k. \<exists>n\<in>set (takeWhile (\<lambda>m. m \<noteq> x) names).
                     k = locate cwd pp @ [n] \<and> readable_file (files w) k) w'"
  using assms
proof (induction names arbitrary: seen w)
  case Nil
  then show ?case by simp
next
  case (Cons n rest)
  let ?p = "locate cwd pp"
  from Cons.prems(1) have pn: "plain_name n" and pr: "list_all plain_name rest" by auto
  show ?case
  proof (cases "n = x")
    case True
    from Cons.prems(3) obtain c l where "lookup (files w) (?p @ [n]) = Some (File c False l)"
      unfolding True by blast
    then have "dedup_loop asctime H cwd pp folder (n # rest) seen w = Inl (PermissionError, w)"
      by (rule dedup_loop_locked[OF pn])
    moreover have "only_lost asctime w
             (\<lambda>k. \<exists>m\<in>set (takeWhile (\<lambda>m. m \<noteq> x) (n # rest)).
                     k = ?p @ [m] \<and> readable_file (files w) k) w"
      by (rule only_lost_refl)
    ultimately show ?thesis by blast
  next
    case False
    with Cons.prems(2) have xr: "x \<in> set rest" by auto
    let ?Q = "\<lambda>w k. \<exists>m\<in>set (takeWhile (\<lambda>m. m \<noteq> x) rest). k = ?p @ [m] \<and> readable_file (files w) k"
    let ?P = "\<lambda>k. \<exists>m\<in>set (takeWhile (\<lambda>m. m \<noteq> x) (n # rest)).
                     k = ?p @ [m] \<and> readable_file (files w) k"
    have up: "?Q w k \<Longrightarrow> ?P k" for k using False by auto
    show ?thesis
    proof (cases "files w" "?p @ [n]" rule: entry_kinds)
      case other
      from Cons.IH[OF pr xr Cons.prems(3), of seen] obtain w' where
        "dedup_loop asctime H cwd pp folder rest seen w = Inl (PermissionError, w')"
        "only_lost asctime w (?Q w) w'" by blast
      with up show ?thesis
        unfolding dedup_loop_other[OF pn other] by (blast intro: only_lost_mono)
    next
      case (locked c l)
      have "dedup_loop asctime H cwd pp folder (n # rest) seen w = Inl (PermissionError, w)"
        by (rule dedup_loop_locked[OF pn locked])
      moreover have "only_lost asctime w ?P w" by (rule only_lost_refl)
      ultimately show ?thesis by blast
    next
      case (readable c l)
      show ?thesis
      proof (cases "H c \<in> seen")
        case False
        from Cons.IH[OF pr xr Cons.prems(3), of "insert (H c) seen"] obtain w' where
          "dedup_loop asctime H cwd pp folder rest (insert (H c) seen) w = Inl (PermissionError, w')"
          "only_lost asctime w (?Q w) w'" by blast
        with up show ?thesis
          unfolding dedup_loop_fresh[where H=H and c=c, OF pn readable False] by (blast intro: only_lost_mono)
      next
        case True
        let ?w = "logging_info asctime (RemovedDuplicate n folder)
                    (w\<lparr>files := AList.delete (?p @ [n]) (files w)\<rparr>)"
        have 1: "only_lost asctime w ?P ?w"
          by (rule only_lost_remove) (use readable \<open>n \<noteq> x\<close> in auto)
        from Cons.prems(3) \<open>n \<noteq> x\<close>
        have "\<exists>c l. lookup (files ?w) (?p @ [x]) = Some (File c False l)"
          by (auto simp: lookup_emit lookup_delete)
        from Cons.IH[OF pr xr this, of seen] obtain w' where
          r: "dedup_loop asctime H cwd pp folder rest seen ?w = Inl (PermissionError, w')"
          and ol: "only_lost asctime ?w (?Q ?w) w'" by blast
        have "only_lost asctime w ?P w'"
        proof (rule only_lost_trans[OF 1 ol])
          fix k assume "?Q ?w k"
          then obtain m where m: "m \<in> set (takeWhile (\<lambda>m. m \<noteq> x) rest)" "k = ?p @ [m]"
            "readable_file (files ?w) k" by blast
          from readable_back[OF 1 m(3)] m(1,2) \<open>n \<noteq> x\<close> show "?P k" by auto
        qed
        with r show ?thesis
          unfolding dedup_loop_dup[where H=H and c=c, OF pn readable True] by blast
      qed
    qed
  qed
qed

subsection \<open>The pass over a folder whose files can be read and do not change\<close>

lemma dedup_loop_exact:
  assumes "list_all plain_name names" "distinct names"
    "\<forall>n\<in>set names. steady (files w) (locate cwd pp @ [n])"
  shows "\<exists>w'. dedup_loop asctime H cwd pp folder names seen w = Inr w' \<and>
           (\<forall>q. lookup (files w') q =
              (if \<exists>n\<in>set names. q = locate cwd pp @ [n]
                     \<and> is_dup H (files w) (locate cwd pp) names seen n
               then None
               else map_option (appended (written asctime w w')) (lookup (files w) q)))"
  using assms
proof (induction names arbitrary: seen w)
  case Nil
  then show ?case by simp
next
  case (Cons n rest)
  let ?p = "locate cwd pp"
  from Cons.prems(1) have pn: "plain_name n" and pr: "list_all plain_name rest" by auto
  from Cons.prems(2) have dn: "n \<notin> set rest" and dr: "distinct rest" by auto
  from Cons.prems(3) have sn: "steady (files w) (?p @ [n])"
    and sr: "\<forall>m\<in>set rest. steady (files w) (?p @ [m])" by auto
  have ne: "m \<noteq> n" if "m \<in> set rest" for m using that dn by auto
  show ?case
  proof (cases "files w" "?p @ [n]" rule: entry_kinds)
    case other
    then have dg: "digest_at H (files w) (?p @ [n]) = None"
      by (auto simp: digest_at_def is_file_def split: option.splits entry.splits)
    from Cons.IH[OF pr dr sr, of seen] obtain w' where
      r: "dedup_loop asctime H cwd pp folder rest seen w = Inr w'"
      and l: "\<And>q. lookup (files w') q =
              (if \<exists>m\<in>set rest. q = ?p @ [m] \<and> is_dup H (files w) ?p rest seen m then None
               else map_option (appended (written asctime w w')) (lookup (files w) q))"
      by blast
    have "\<not> is_dup H (files w) ?p (n # rest) seen n"
      using dg by (simp add: is_dup_def)
    moreover have "is_dup H (files w) ?p (n # rest) seen m = is_dup H (files w) ?p rest seen m"
      if "m \<in> set rest" for m
      by (rule is_dup_skip[OF dg ne[OF that]])
    ultimately have "(\<exists>m\<in>set (n # rest). q = ?p @ [m] \<and> is_dup H (files w) ?p (n # rest) seen m)
        = (\<exists>m\<in>set rest. q = ?p @ [m] \<and> is_dup H (files w) ?p rest seen m)" for q
      by auto
    with r l show ?thesis
      unfolding dedup_loop_other[OF pn other] by simp
  next
    case (locked c l)
    with sn show ?thesis by (simp add: steady_def)
  next
    case (readable c l)
    then have dg: "digest_at H (files w) (?p @ [n]) = Some (H c)" by (simp add: digest_at_def)
    show ?thesis
    proof (cases "H c \<in> seen")
      case False
      from Cons.IH[OF pr dr sr, of "insert (H c) seen"] obtain w' where
        r: "dedup_loop asctime H cwd pp folder rest (insert (H c) seen) w = Inr w'"
        and l: "\<And>q. lookup (files w') q =
                (if \<exists>m\<in>set rest. q = ?p @ [m] \<and> is_dup H (files w) ?p rest (insert (H c) seen) m
                 then None
                 else map_option (appended (written asctime w w')) (lookup (files w) q))"
        by blast
      have "\<not> is_dup H (files w) ?p (n # rest) seen n"
        using dg False by (simp add: is_dup_def)
      moreover have "is_dup H (files w) ?p (n # rest) seen m
                     = is_dup H (files w) ?p rest (insert (H c) seen) m"
        if "m \<in> set rest" for m
        by (rule is_dup_fresh[OF dg ne[OF that]])
      ultimately have "(\<exists>m\<in>set (n # rest). q = ?p @ [m] \<and> is_dup H (files w) ?p (n # rest) seen m)
          = (\<exists>m\<in>set rest. q = ?p @ [m] \<and> is_dup H (files w) ?p rest (insert (H c) seen) m)" for q
        by auto
      with r l show ?thesis
        unfolding dedup_loop_fresh[where H=H and c=c, OF pn readable False] by simp
    next
      case True
      let ?ev = "RemovedDuplicate n folder"
      let ?line = "format_record asctime (length (log w)) ?ev"
      let ?w = "logging_info asctime ?ev (w\<lparr>files := AList.delete (?p @ [n]) (files w)\<rparr>)"
      have lw: "lookup (files ?w) q
                = (if q = ?p @ [n] then None else map_option (appended ?line) (lookup (files w) q))"
        for q
        by (simp add: lookup_emit lookup_delete)
      have same: "lookup (files ?w) (?p @ [m]) = lookup (files w) (?p @ [m])"
        if "m \<in> set rest" for m
      proof -
        have "lookup (files ?w) (?p @ [m]) = map_option (appended ?line) (lookup (files w) (?p @ [m]))"
          using ne[OF that] by (simp add: lookup_emit lookup_delete)
        also have "\<dots> = lookup (files w) (?p @ [m])"
          by (rule steady_same) (use sr that in auto)
        finally show ?thesis .
      qed
      have sr': "\<forall>m\<in>set rest. steady (files ?w) (?p @ [m])"
        using sr same by (simp add: steady_def)
      from Cons.IH[OF pr dr sr', of seen] obtain w' where
        r: "dedup_loop asctime H cwd pp folder rest seen ?w = Inr w'"
        and l: "\<And>q. lookup (files w') q =
                (if \<exists>m\<in>set rest. q = ?p @ [m] \<and> is_dup H (files ?w) ?p rest seen m then None
                 else map_option (appended (written asctime ?w w')) (lookup (files ?w) q))"
        by blast
      from dedup_loop_only_lost[OF pr, of asctime ?w cwd pp H folder seen] r
      obtain evs where "log w' = log ?w @ evs"
        by (auto simp: state_of_def dest: only_lost_log)
      then have wr: "written asctime w w' = ?line @ written asctime ?w w'"
        by (intro written_step) simp_all
      have dsame: "\<forall>m\<in>set rest. digest_at H (files ?w) (?p @ [m]) = digest_at H (files w) (?p @ [m])"
        using same by (simp add: digest_at_def)
      have "is_dup H (files w) ?p (n # rest) seen n"
        using dg True by (simp add: is_dup_def)
      moreover have "is_dup H (files w) ?p (n # rest) seen m = is_dup H (files ?w) ?p rest seen m"
        if "m \<in> set rest" for m
        using is_dup_seen[OF dg True ne[OF that]] is_dup_cong[OF dsame that] by simp
      ultimately have eq: "(\<exists>m\<in>set (n # rest). q = ?p @ [m] \<and> is_dup H (files w) ?p (n # rest) seen m)
          = (q = ?p @ [n] \<or> (\<exists>m\<in>set rest. q = ?p @ [m] \<and> is_dup H (files ?w) ?p rest seen m))"
        for q by auto
      have "lookup (files w') q =
              (if \<exists>m\<in>set (n # rest). q = ?p @ [m] \<and> is_dup H (files w) ?p (n # rest) seen m
               then None
               else map_option (appended (written asctime w w')) (lookup (files w) q))" for q
      proof (cases "q = ?p @ [n] \<or> (\<exists>m\<in>set rest. q = ?p @ [m] \<and> is_dup H (files ?w) ?p rest seen m)")
        case True
        have "lookup (files w') q = None"
        proof (cases "\<exists>m\<in>set rest. q = ?p @ [m] \<and> is_dup H (files ?w) ?p rest seen m")
          case True
          with l[of q] show ?thesis by (simp only: if_True)
        next
          case False
          with True have "q = ?p @ [n]" by blast
          with lw[of q] have "lookup (files ?w) q = None" by (simp only: if_True simp_thms)
          with l[of q] False show ?thesis by (simp only: if_False option.map)
        qed
        with True show ?thesis by (simp only: eq[of q] if_True)
      next
        case False
        then have nd: "\<not> (\<exists>m\<in>set rest. q = ?p @ [m] \<and> is_dup H (files ?w) ?p rest seen m)"
          and qn: "q \<noteq> ?p @ [n]" by blast+
        have "lookup (files w') q
              = map_option (appended (written asctime ?w w')) (lookup (files ?w) q)"
          using l[of q] nd by (simp only: if_False)
        also have "\<dots> = map_option (appended (written asctime w w')) (lookup (files w) q)"
          using qn by (simp only: lw[of q] wr if_False map_option_appended)
        finally show ?thesis using False by (simp only: eq[of q] if_False)
      qed
      with r show ?thesis
        unfolding dedup_loop_dup[where H=H and c=c, OF pn readable True] by blast
    qed
  qed
qed

subsection \<open>The pass, as the stage calls it\<close>

lemma wf_names_plain: "wf_fs fs \<Longrightarrow> list_all plain_name (names_in fs p)"
  using wf_fs_names_plain by (auto simp: list_all_iff)

lemma wf_names_distinct: "wf_fs fs \<Longrightarrow> distinct (names_in fs p)"
  by (auto simp: wf_fs_def intro: names_in_distinct)

lemma state_of_simps [simp]: "state_of (Inl (e, w)) = w" "state_of (Inr w) = w"
  by (simp_all add: state_of_def)

lemma dedup_folder_only_lost:
  assumes "wf_fs (files w)"
  shows "only_lost asctime w
           (\<lambda>k. k \<noteq> [] \<and> butlast k = folder_dir cwd d folder \<and> readable_file (files w) k)
           (state_of (dedup_folder asctime H cwd d folder w))"
proof (cases "os_listdir (files w) (folder_dir cwd d folder)")
  case (Inl e)
  then show ?thesis by (simp add: dedup_folder_def only_lost_refl)
next
  case (Inr names)
  from os_listdir_Inr[OF this] have n: "names = names_in (files w) (folder_dir cwd d folder)"
    by simp
  have pl: "list_all plain_name names" unfolding n by (rule wf_names_plain[OF assms])
  have "only_lost asctime w
          (\<lambda>k. \<exists>n\<in>set names. k = folder_dir cwd d folder @ [n] \<and> readable_file (files w) k)
          (state_of (dedup_loop asctime H cwd (truediv (Path d) folder) folder names {} w))"
    by (rule dedup_loop_only_lost[OF pl])
  then have "only_lost asctime w
          (\<lambda>k. k \<noteq> [] \<and> butlast k = folder_dir cwd d folder \<and> readable_file (files w) k)
          (state_of (dedup_loop asctime H cwd (truediv (Path d) folder) folder names {} w))"
    by (rule only_lost_mono) auto
  with Inr show ?thesis by (simp add: dedup_folder_def)
qed

lemma dedup_folder_stops:
  assumes "wf_fs (files w)"
    "\<exists>c l. lookup (files w) (folder_dir cwd d folder @ [x]) = Some (File c False l)"
  shows "\<exists>e w'. dedup_folder asctime H cwd d folder w = Inl (e, w') \<and>
           (is_dir (files w) (folder_dir cwd d folder) \<longrightarrow> e = PermissionError) \<and>
           only_lost asctime w
             (\<lambda>k. \<exists>n\<in>set (listed_before (files w) (folder_dir cwd d folder) x).
                     k = folder_dir cwd d folder @ [n] \<and> readable_file (files w) k) w'"
proof (cases "os_listdir (files w) (folder_dir cwd d folder)")
  case (Inl e)
  with os_listdir_dir[of "files w" "folder_dir cwd d folder"]
  have "\<not> is_dir (files w) (folder_dir cwd d folder)" by auto
  moreover from Inl have "dedup_folder asctime H cwd d folder w = Inl (e, w)"
    by (simp add: dedup_folder_def)
  ultimately show ?thesis using only_lost_refl by blast
next
  case (Inr names)
  from os_listdir_Inr[OF this] have n: "names = names_in (files w) (folder_dir cwd d folder)"
    by simp
  have x: "x \<in> set names"
    unfolding n using assms(2) by (intro is_file_listed) (auto simp: is_file_def)
  have pl: "list_all plain_name names" unfolding n by (rule wf_names_plain[OF assms(1)])
  from dedup_loop_stops[OF pl x, of w cwd "truediv (Path d) folder" asctime H folder "{}"] assms(2)
  obtain w' where
    "dedup_loop asctime H cwd (truediv (Path d) folder) folder names {} w = Inl (PermissionError, w')"
    "only_lost asctime w
       (\<lambda>k. \<exists>m\<in>set (takeWhile (\<lambda>m. m \<noteq> x) names).
               k = folder_dir cwd d folder @ [m] \<and> readable_file (files w) k) w'"
    by auto
  with Inr show ?thesis
    unfolding dedup_folder_def Let_def listed_before_def n by auto
qed

lemma dedup_folder_exact:
  assumes "wf_fs (files w)" "is_dir (files w) (folder_dir cwd d folder)"
    "\<forall>n\<in>set (names_in (files w) (folder_dir cwd d folder)).
       steady (files w) (folder_dir cwd d folder @ [n])"
  shows "\<exists>w'. dedup_folder asctime H cwd d folder w = Inr w' \<and>
           (\<forall>q. lookup (files w') q =
              (if dup_entry H (files w) (folder_dir cwd d folder) q then None
               else map_option (appended (written asctime w w')) (lookup (files w) q)))"
proof -
  let ?P = "folder_dir cwd d folder"
  let ?names = "names_in (files w) ?P"
  from dedup_loop_exact[OF wf_names_plain[OF assms(1)] wf_names_distinct[OF assms(1)],
      of ?P w cwd "truediv (Path d) folder" asctime H folder "{}"] assms(3)
  obtain w' where
    "dedup_loop asctime H cwd (truediv (Path d) folder) folder ?names {} w = Inr w'"
    "\<And>q. lookup (files w') q =
         (if \<exists>n\<in>set ?names. q = ?P @ [n] \<and> is_dup H (files w) ?P ?names {} n then None
          else map_option (appended (written asctime w w')) (lookup (files w) q))"
    by auto
  then show ?thesis
    using assms(2) by (auto simp: dedup_folder_def Let_def os_listdir_dir dup_entry_def)
qed

subsection \<open>The stage only deletes readable regular files of the configured folders\<close>

lemma remove_duplicates_only_lost:
  assumes "wf_fs (files w)"
  shows "only_lost asctime w
           (\<lambda>k. k \<noteq> [] \<and> butlast k \<in> folder_dir cwd d ` fst ` set rules
                 \<and> readable_file (files w) k)
           (state_of (remove_duplicates asctime H cwd rules d w))"
  using assms
proof (induction rules arbitrary: w)
  case Nil
  then show ?case by (simp add: only_lost_refl)
next
  case (Cons a rules)
  obtain folder exts where a: "a = (folder, exts)" by (cases a)
  let ?P = "\<lambda>k. k \<noteq> [] \<and> butlast k \<in> folder_dir cwd d ` fst ` set (a # rules)
                 \<and> readable_file (files w) k"
  have "only_lost asctime w
          (\<lambda>k. k \<noteq> [] \<and> butlast k = folder_dir cwd d folder \<and> readable_file (files w) k)
          (state_of (dedup_folder asctime H cwd d folder w))"
    by (rule dedup_folder_only_lost[OF Cons.prems])
  then have 1: "only_lost asctime w ?P (state_of (dedup_folder asctime H cwd d folder w))"
    by (rule only_lost_mono) (auto simp: a)
  show ?case
  proof (cases "dedup_folder asctime H cwd d folder w")
    case (Inl x)
    with 1 a show ?thesis by (cases x) simp
  next
    case (Inr w1)
    with 1 have ol: "only_lost asctime w ?P w1" by simp
    have wf1: "wf_fs (files w1)" by (rule only_lost_wf[OF ol Cons.prems])
    have "only_lost asctime w ?P (state_of (remove_duplicates asctime H cwd rules d w1))"
    proof (rule only_lost_trans[OF ol Cons.IH[OF wf1]])
      fix k
      assume "k \<noteq> [] \<and> butlast k \<in> folder_dir cwd d ` fst ` set rules
                \<and> readable_file (files w1) k"
      with readable_back[OF ol, of k] show "?P k" by auto
    qed
    with Inr a show ?thesis by simp
  qed
qed

lemma remove_duplicates_wf:
  "wf_fs (files w) \<Longrightarrow> wf_fs (files (state_of (remove_duplicates asctime H cwd rules d w)))"
  using only_lost_wf[OF remove_duplicates_only_lost] by blast

lemma organize_files_wf:
  assumes "organize_files asctime cwd rules d w = Inr (w', c')" "wf_fs (files w)" "plain_path cwd"
  shows "wf_fs (files w')"
proof -
  from assms obtain fs1 A where "wf_fs fs1"
    "organize_loop asctime cwd rules d (names_in fs1 (source_dir cwd d)) (w\<lparr>files := fs1\<rparr>) []
       = Inr (w', c')"
    "list_all plain_name (names_in fs1 (source_dir cwd d))"
    by (rule organize_files_Inr)
  from organize_loop_wf[OF this(2,3) _ assms(3)] this(1) show ?thesis by simp
qed

subsection \<open>The stage stops at a file that cannot be read\<close>

lemma remove_duplicates_stops:
  assumes "wf_fs (files w)"
    "\<exists>c l. lookup (files w) (folder_dir cwd d folder @ [x]) = Some (File c False l)"
  shows "\<exists>e w'. remove_duplicates asctime H cwd (pre @ (folder, exts) # post) d w = Inl (e, w') \<and>
           only_lost asctime w
             (\<lambda>k. k \<noteq> [] \<and> butlast k \<in> folder_dir cwd d ` fst ` set (pre @ [(folder, exts)])
                   \<and> readable_file (files w) k
                   \<and> (butlast k = folder_dir cwd d folder \<longrightarrow>
                        last k \<in> set (listed_before (files w) (folder_dir cwd d folder) x))) w'"
  using assms
proof (induction pre arbitrary: w)
  case Nil
  let ?X = "folder_dir cwd d folder"
  from dedup_folder_stops[OF Nil.prems, of asctime H] obtain e w' where
    r: "dedup_folder asctime H cwd d folder w = Inl (e, w')"
    and ol: "only_lost asctime w
               (\<lambda>k. \<exists>n\<in>set (listed_before (files w) ?X x). k = ?X @ [n] \<and> readable_file (files w) k)
               w'"
    by blast
  from ol have "only_lost asctime w
             (\<lambda>k. k \<noteq> [] \<and> butlast k \<in> folder_dir cwd d ` fst ` set ([] @ [(folder, exts)])
                   \<and> readable_file (files w) k
                   \<and> (butlast k = ?X \<longrightarrow> last k \<in> set (listed_before (files w) ?X x))) w'"
    by (rule only_lost_mono) auto
  with r show ?case by simp
next
  case (Cons a pre)
  obtain g gx where a: "a = (g, gx)" by (cases a)
  let ?X = "folder_dir cwd d folder" and ?G = "folder_dir cwd d g"
  let ?T = "\<lambda>w pre k. k \<noteq> [] \<and> butlast k \<in> folder_dir cwd d ` fst ` set (pre @ [(folder, exts)])
                   \<and> readable_file (files w) k
                   \<and> (butlast k = ?X \<longrightarrow> last k \<in> set (listed_before (files w) ?X x))"
  have olg: "only_lost asctime w (\<lambda>k. k \<noteq> [] \<and> butlast k = ?G \<and> readable_file (files w) k)
               (state_of (dedup_folder asctime H cwd d g w))"
    by (rule dedup_folder_only_lost[OF Cons.prems(1)])
  show ?case
  proof (cases "?G = ?X")
    case True
    from dedup_folder_stops[OF Cons.prems(1), of cwd d g x asctime H] Cons.prems(2) obtain e w' where
      r: "dedup_folder asctime H cwd d g w = Inl (e, w')"
      and ol: "only_lost asctime w
               (\<lambda>k. \<exists>n\<in>set (listed_before (files w) ?G x). k = ?G @ [n] \<and> readable_file (files w) k)
               w'"
      unfolding True by blast
    from ol have "only_lost asctime w (?T w (a # pre)) w'"
      by (rule only_lost_mono) (auto simp: a True)
    with r a show ?thesis by auto
  next
    case False
    from olg have 1: "only_lost asctime w (?T w (a # pre)) (state_of (dedup_folder asctime H cwd d g w))"
      by (rule only_lost_mono) (use False in \<open>auto simp: a\<close>)
    show ?thesis
    proof (cases "dedup_folder asctime H cwd d g w")
      case (Inl y)
      obtain e w' where y: "y = (e, w')" by (cases y)
      with Inl 1 a show ?thesis by auto
    next
      case (Inr w1)
      with olg have ol: "only_lost asctime w
                           (\<lambda>k. k \<noteq> [] \<and> butlast k = ?G \<and> readable_file (files w) k) w1"
        by simp
      have wf1: "wf_fs (files w1)" by (rule only_lost_wf[OF ol Cons.prems(1)])
      from Cons.prems(2) obtain c l where c: "lookup (files w) (?X @ [x]) = Some (File c False l)"
        by blast
      have "lookup (files w1) (?X @ [x])
            = map_option (appended (written asctime w w1)) (lookup (files w) (?X @ [x]))"
        by (rule only_lost_keeps[OF ol]) (use False in auto)
      with c have x1: "\<exists>c l. lookup (files w1) (?X @ [x]) = Some (File c False l)" by simp
      have "names_in (files w1) ?X = names_in (files w) ?X"
        by (rule only_lost_names_same[OF ol]) (use False in auto)
      then have lb: "listed_before (files w1) ?X x = listed_before (files w) ?X x"
        by (simp add: listed_before_def)
      from Cons.IH[OF wf1 x1] obtain e w' where
        r: "remove_duplicates asctime H cwd (pre @ (folder, exts) # post) d w1 = Inl (e, w')"
        and ol2: "only_lost asctime w1 (?T w1 pre) w'"
        by blast
      from 1 Inr have ol1: "only_lost asctime w (?T w (a # pre)) w1" by simp
      have "only_lost asctime w (?T w (a # pre)) w'"
      proof (rule only_lost_trans[OF ol1 ol2])
        fix k assume "?T w1 pre k"
        with readable_back[OF ol, of k] show "?T w (a # pre) k"
          unfolding lb by auto
      qed
      with r Inr a show ?thesis by auto
    qed
  qed
qed

subsection \<open>The stage over folders whose files can be read and do not change\<close>

lemma is_dup_digest:
  "is_dup H fs p names {} n \<longleftrightarrow>
     digest_at H fs (p @ [n]) \<noteq> None \<and>
     list_ex (\<lambda>m. digest_at H fs (p @ [m]) = digest_at H fs (p @ [n]))
       (takeWhile (\<lambda>m. m \<noteq> n) names)"
  by (auto simp: is_dup_def split: option.splits)

lemma dup_entry_other:
  assumes ol: "only_lost asctime w (\<lambda>k. k \<noteq> [] \<and> butlast k = p1 \<and> readable_file (files w) k) w1"
    and "p \<noteq> p1"
    and st: "\<forall>n\<in>set (names_in (files w) p). steady (files w) (p @ [n])"
  shows "dup_entry H (files w1) p q = dup_entry H (files w) p q"
proof -
  have nm: "names_in (files w1) p = names_in (files w) p"
    by (rule only_lost_names_same[OF ol]) (use assms(2) in auto)
  have dg: "\<forall>m\<in>set (names_in (files w) p).
              digest_at H (files w1) (p @ [m]) = digest_at H (files w) (p @ [m])"
  proof
    fix m assume m: "m \<in> set (names_in (files w) p)"
    have "lookup (files w1) (p @ [m])
          = map_option (appended (written asctime w w1)) (lookup (files w) (p @ [m]))"
      by (rule only_lost_keeps[OF ol]) (use assms(2) in auto)
    also have "\<dots> = lookup (files w) (p @ [m])"
      by (rule steady_same) (use st m in auto)
    finally show "digest_at H (files w1) (p @ [m]) = digest_at H (files w) (p @ [m])"
      by (simp add: digest_at_def)
  qed
  show ?thesis
    unfolding dup_entry_def nm using is_dup_cong[OF dg] by blast
qed

lemma no_dup_entry_after_pass:
  assumes ol: "only_lost asctime w P w1"
    and l1: "\<And>q. lookup (files w1) q =
               (if dup_entry H (files w) p q then None
                else map_option (appended (written asctime w w1)) (lookup (files w) q))"
    and st: "\<forall>n\<in>set (names_in (files w) p). steady (files w) (p @ [n])"
  shows "\<not> dup_entry H (files w1) p q"
proof
  let ?ns = "names_in (files w) p" and ?ns1 = "names_in (files w1) p"
  assume "dup_entry H (files w1) p q"
  then obtain n where n: "n \<in> set ?ns1" "q = p @ [n]" "is_dup H (files w1) p ?ns1 {} n"
    unfolding dup_entry_def by blast
  have sub: "set ?ns1 \<subseteq> set ?ns" by (rule only_lost_names[OF ol])
  have same: "digest_at H (files w1) (p @ [m]) = digest_at H (files w) (p @ [m])"
    if "m \<in> set ?ns" "lookup (files w1) (p @ [m]) \<noteq> None" for m
  proof -
    from that(2) l1[of "p @ [m]"] have "lookup (files w1) (p @ [m])
        = map_option (appended (written asctime w w1)) (lookup (files w) (p @ [m]))"
      by (simp split: if_splits)
    also have "\<dots> = lookup (files w) (p @ [m])"
      by (rule steady_same) (use st that(1) in auto)
    finally show ?thesis by (simp add: digest_at_def)
  qed
  from n(3) obtain m where dn: "digest_at H (files w1) (p @ [n]) \<noteq> None"
    and m: "m \<in> set (takeWhile (\<lambda>m. m \<noteq> n) ?ns1)"
    and e: "digest_at H (files w1) (p @ [m]) = digest_at H (files w1) (p @ [n])"
    unfolding is_dup_digest list_ex_iff by blast
  from dn have ln: "lookup (files w1) (p @ [n]) \<noteq> None"
    by (auto simp: digest_at_def split: option.splits)
  from dn e have lm: "lookup (files w1) (p @ [m]) \<noteq> None"
    by (auto simp: digest_at_def split: option.splits)
  have f: "?ns1 = filter (\<lambda>n. lookup (files w1) (p @ [n]) \<noteq> None) ?ns"
    by (rule only_lost_names_filter[OF ol])
  from m have m0: "m \<in> set (takeWhile (\<lambda>m. m \<noteq> n) ?ns)"
    using takeWhile_filter_subset[of "\<lambda>n. lookup (files w1) (p @ [n]) \<noteq> None" n ?ns] ln
    unfolding f[symmetric] by blast
  then have mn: "m \<in> set ?ns" by (rule set_takeWhileD[THEN conjunct1])
  from n(1) sub have nn: "n \<in> set ?ns" by blast
  have "is_dup H (files w) p ?ns {} n"
    unfolding is_dup_digest list_ex_iff
    using m0 dn e same[OF mn lm] same[OF nn ln] by auto
  with nn have "dup_entry H (files w) p (p @ [n])" unfolding dup_entry_def by blast
  with l1[of "p @ [n]"] ln show False by simp
qed

lemma remove_duplicates_exact:
  assumes "wf_fs (files w)"
    "\<forall>f\<in>fst ` set rules. is_dir (files w) (folder_dir cwd d f) \<and>
        (\<forall>n\<in>set (names_in (files w) (folder_dir cwd d f)).
           steady (files w) (folder_dir cwd d f @ [n]))"
  shows "\<exists>w'. remove_duplicates asctime H cwd rules d w = Inr w' \<and>
           (\<forall>q. lookup (files w') q =
              (if \<exists>f\<in>fst ` set rules. dup_entry H (files w) (folder_dir cwd d f) q then None
               else map_option (appended (written asctime w w')) (lookup (files w) q)))"
  using assms
proof (induction rules arbitrary: w)
  case Nil
  then show ?case by simp
next
  case (Cons a rules)
  obtain f1 e1 where a: "a = (f1, e1)" by (cases a)
  let ?P1 = "folder_dir cwd d f1"
  from Cons.prems(2) have d1: "is_dir (files w) ?P1"
    and s1: "\<forall>n\<in>set (names_in (files w) ?P1). steady (files w) (?P1 @ [n])"
    by (auto simp: a)
  from dedup_folder_exact[OF Cons.prems(1) d1 s1, of asctime H] obtain w1 where
    r1: "dedup_folder asctime H cwd d f1 w = Inr w1"
    and l1: "\<And>q. lookup (files w1) q =
               (if dup_entry H (files w) ?P1 q then None
                else map_option (appended (written asctime w w1)) (lookup (files w) q))"
    by blast
  from dedup_folder_only_lost[OF Cons.prems(1), of asctime cwd d f1 H] r1
  have ol: "only_lost asctime w (\<lambda>k. k \<noteq> [] \<and> butlast k = ?P1 \<and> readable_file (files w) k) w1"
    by simp
  have wf1: "wf_fs (files w1)" by (rule only_lost_wf[OF ol Cons.prems(1)])
  have st: "is_dir (files w) (folder_dir cwd d g) \<and>
            (\<forall>n\<in>set (names_in (files w) (folder_dir cwd d g)).
                steady (files w) (folder_dir cwd d g @ [n]))"
    if "g \<in> fst ` set rules" for g
    using Cons.prems(2) that by auto
  have inv: "\<forall>g\<in>fst ` set rules. is_dir (files w1) (folder_dir cwd d g) \<and>
        (\<forall>n\<in>set (names_in (files w1) (folder_dir cwd d g)).
           steady (files w1) (folder_dir cwd d g @ [n]))"
  proof (intro ballI conjI)
    fix g assume g: "g \<in> fst ` set rules"
    from st[OF g] have "\<not> readable_file (files w) (folder_dir cwd d g)"
      by (auto simp: is_dir_def)
    then have "is_dir (files w1) (folder_dir cwd d g) = is_dir (files w) (folder_dir cwd d g)"
      by (intro only_lost_is_dir[OF ol]) simp
    with st[OF g] show "is_dir (files w1) (folder_dir cwd d g)" by simp
  next
    fix g n assume g: "g \<in> fst ` set rules"
      and n: "n \<in> set (names_in (files w1) (folder_dir cwd d g))"
    from n only_lost_names[OF ol] have "n \<in> set (names_in (files w) (folder_dir cwd d g))"
      by blast
    with st[OF g] have "steady (files w) (folder_dir cwd d g @ [n])" by blast
    then show "steady (files w1) (folder_dir cwd d g @ [n])" by (rule steady_forth[OF ol])
  qed
  from Cons.IH[OF wf1 inv] obtain w' where
    r2: "remove_duplicates asctime H cwd rules d w1 = Inr w'"
    and l2: "\<And>q. lookup (files w') q =
               (if \<exists>g\<in>fst ` set rules. dup_entry H (files w1) (folder_dir cwd d g) q then None
                else map_option (appended (written asctime w1 w')) (lookup (files w1) q))"
    by blast
  from only_lost_log[OF ol] obtain xs where xs: "log w1 = log w @ xs" by blast
  from only_lost_log[OF remove_duplicates_only_lost[OF wf1, of asctime cwd d rules H]] r2
  obtain ys where ys: "log w' = log w1 @ ys" by auto
  have wr: "written asctime w w' = written asctime w w1 @ written asctime w1 w'"
    by (rule written_trans[OF xs ys])
  have A: "dup_entry H (files w1) (folder_dir cwd d g) q = dup_entry H (files w) (folder_dir cwd d g) q"
    if "g \<in> fst ` set rules" "folder_dir cwd d g \<noteq> ?P1" for g q
    by (rule dup_entry_other[OF ol that(2)]) (use st[OF that(1)] in blast)
  have B: "\<not> dup_entry H (files w1) ?P1 q" for q
    by (rule no_dup_entry_after_pass[OF ol l1 s1])
  have eq: "(\<exists>g\<in>fst ` set (a # rules). dup_entry H (files w) (folder_dir cwd d g) q)
          = (dup_entry H (files w) ?P1 q
              \<or> (\<exists>g\<in>fst ` set rules. dup_entry H (files w1) (folder_dir cwd d g) q))" for q
  proof
    assume "\<exists>g\<in>fst ` set (a # rules). dup_entry H (files w) (folder_dir cwd d g) q"
    then obtain g where g: "g = f1 \<or> g \<in> fst ` set rules"
      "dup_entry H (files w) (folder_dir cwd d g) q"
      by (auto simp: a)
    show "dup_entry H (files w) ?P1 q
          \<or> (\<exists>g\<in>fst ` set rules. dup_entry H (files w1) (folder_dir cwd d g) q)"
    proof (cases "folder_dir cwd d g = ?P1")
      case True
      with g(2) show ?thesis by simp
    next
      case False
      with g(1) have "g \<in> fst ` set rules" by auto
      with A[OF this False] g(2) show ?thesis by blast
    qed
  next
    assume "dup_entry H (files w) ?P1 q
            \<or> (\<exists>g\<in>fst ` set rules. dup_entry H (files w1) (folder_dir cwd d g) q)"
    then show "\<exists>g\<in>fst ` set (a # rules). dup_entry H (files w) (folder_dir cwd d g) q"
    proof
      assume "dup_entry H (files w) ?P1 q"
      then show ?thesis by (auto simp: a)
    next
      assume "\<exists>g\<in>fst ` set rules. dup_entry H (files w1) (folder_dir cwd d g) q"
      then obtain g where g: "g \<in> fst ` set rules"
        "dup_entry H (files w1) (folder_dir cwd d g) q" by blast
      with B[of q] have "folder_dir cwd d g \<noteq> ?P1" by auto
      from A[OF g(1) this] g show ?thesis by auto
    qed
  qed
  have "lookup (files w') q =
          (if \<exists>g\<in>fst ` set (a # rules). dup_entry H (files w) (folder_dir cwd d g) q then None
           else map_option (appended (written asctime w w')) (lookup (files w) q))" for q
  proof (cases "\<exists>g\<in>fst ` set rules. dup_entry H (files w1) (folder_dir cwd d g) q")
    case True
    with l2[of q] have "lookup (files w') q = None" by (simp only: if_True)
    with True show ?thesis by (simp only: eq[of q] simp_thms if_True)
  next
    case False
    with l2[of q] have 2: "lookup (files w') q
        = map_option (appended (written asctime w1 w')) (lookup (files w1) q)"
      by (simp only: if_False)
    show ?thesis
    proof (cases "dup_entry H (files w) ?P1 q")
      case True
      with l1[of q] have "lookup (files w1) q = None" by (simp only: if_True)
      with 2 have "lookup (files w') q = None" by simp
      with True show ?thesis by (simp only: eq[of q] simp_thms if_True)
    next
      case F1: False
      with l1[of q] have "lookup (files w1) q
          = map_option (appended (written asctime w w1)) (lookup (files w) q)"
        by (simp only: if_False)
      with 2 have "lookup (files w') q
          = map_option (appended (written asctime w w')) (lookup (files w) q)"
        by (simp only: wr map_option_appended)
      with False F1 show ?thesis by (simp only: eq[of q] simp_thms if_False)
    qed
  qed
  with r1 r2 a show ?case by simp
qed

section \<open>Facts about the cleanup stage\<close>

subsection \<open>The cleanup loop\<close>

lemma os_rmdir_empty:
  "is_dir fs p \<Longrightarrow> names_in fs p = [] \<Longrightarrow> p \<noteq> [] \<Longrightarrow> os_rmdir fs p = Inr (AList.delete p fs)"
  by (simp add: os_rmdir_def is_dir_def)

lemma cleanup_loop_Cons:
  assumes "plain_name n"
  shows "cleanup_loop asctime cwd d (n # rest) w =
     (if empty_dir (files w) (source_dir cwd d @ [n]) then
        cleanup_loop asctime cwd d rest
          (logging_info asctime (RemovedEmptyFolder n)
             (w\<lparr>files := AList.delete (source_dir cwd d @ [n]) (files w)\<rparr>))
      else cleanup_loop asctime cwd d rest w)"
  using assms
  by (simp add: locate_truediv_plain Let_def empty_dir_def os_listdir_dir os_rmdir_empty)

lemma empty_dir_emit [simp]: "empty_dir (emit t fs) k = empty_dir fs k"
  by (simp add: empty_dir_def)

lemma empty_dir_delete_sibling:
  assumes "m \<noteq> n"
  shows "empty_dir (AList.delete (D @ [n]) fs) (D @ [m]) = empty_dir fs (D @ [m])"
  using assms
  by (simp add: empty_dir_def is_dir_def lookup_delete names_in_delete_other)

lemma cleanup_loop_result:
  assumes "list_all plain_name names" "distinct names"
  shows "\<exists>w'. cleanup_loop asctime cwd d names w = Inr w' \<and>
           log w' = log w @ map RemovedEmptyFolder
                              (filter (\<lambda>n. empty_dir (files w) (source_dir cwd d @ [n])) names) \<and>
           files w' = emit (written asctime w w')
             (AList.restrict
                (- {k. \<exists>n\<in>set names. k = source_dir cwd d @ [n] \<and> empty_dir (files w) k})
                (files w))"
  using assms
proof (induction names arbitrary: w)
  case Nil
  then show ?case by (simp add: AList.restrict_eq)
next
  case (Cons n rest)
  let ?D = "source_dir cwd d"
  from Cons.prems have pn: "plain_name n" and pr: "list_all plain_name rest"
    and dn: "n \<notin> set rest" and dr: "distinct rest" by auto
  show ?case
  proof (cases "empty_dir (files w) (?D @ [n])")
    case False
    from Cons.IH[OF pr dr, of w] obtain w' where
      w': "cleanup_loop asctime cwd d rest w = Inr w'"
      "log w' = log w @ map RemovedEmptyFolder (filter (\<lambda>n. empty_dir (files w) (?D @ [n])) rest)"
      "files w' = emit (written asctime w w') (AList.restrict
             (- {k. \<exists>m\<in>set rest. k = ?D @ [m] \<and> empty_dir (files w) k}) (files w))"
      by blast
    have "{k. \<exists>m\<in>set (n # rest). k = ?D @ [m] \<and> empty_dir (files w) k}
        = {k. \<exists>m\<in>set rest. k = ?D @ [m] \<and> empty_dir (files w) k}"
      using False by auto
    with w' False show ?thesis
      by (simp add: cleanup_loop_Cons[OF pn] del: cleanup_loop.simps)
  next
    case True
    let ?fs = "AList.delete (?D @ [n]) (files w)"
    let ?ev = "RemovedEmptyFolder n"
    let ?line = "format_record asctime (length (log w)) ?ev"
    let ?w = "logging_info asctime ?ev (w\<lparr>files := ?fs\<rparr>)"
    have sib: "empty_dir ?fs (?D @ [m]) = empty_dir (files w) (?D @ [m])" if "m \<in> set rest" for m
      by (rule empty_dir_delete_sibling) (use that dn in auto)
    from Cons.IH[OF pr dr, of ?w] obtain w' where
      w': "cleanup_loop asctime cwd d rest ?w = Inr w'"
      "log w' = log ?w @ map RemovedEmptyFolder (filter (\<lambda>n. empty_dir (files ?w) (?D @ [n])) rest)"
      "files w' = emit (written asctime ?w w')
         (AList.restrict (- {k. \<exists>m\<in>set rest. k = ?D @ [m] \<and> empty_dir (files ?w) k}) (files ?w))"
      by blast
    have fl: "filter (\<lambda>n. empty_dir (files ?w) (?D @ [n])) rest
              = filter (\<lambda>n. empty_dir (files w) (?D @ [n])) rest"
      by (rule filter_cong) (simp_all add: sib)
    have lg: "log w' = log w @ map RemovedEmptyFolder
                (filter (\<lambda>n. empty_dir (files w) (?D @ [n])) (n # rest))"
      using w'(2) True unfolding fl by simp
    have wr: "written asctime w w' = ?line @ written asctime ?w w'"
      by (rule written_step[OF _ w'(2)]) simp
    have "{k. \<exists>m\<in>set rest. k = ?D @ [m] \<and> empty_dir ?fs k} \<union> {?D @ [n]}
        = {k. \<exists>m\<in>set (n # rest). k = ?D @ [m] \<and> empty_dir (files w) k}"
      (is "?A \<union> _ = ?B")
      using sib True by auto
    then have "AList.restrict (- ?A) ?fs = AList.restrict (- ?B) (files w)"
      by (auto simp: delete_restrict intro: arg_cong[where f="\<lambda>S. AList.restrict S (files w)"])
    then have "files w' = emit (written asctime w w') (AList.restrict (- ?B) (files w))"
      unfolding w'(3) wr by (simp add: emit_restrict)
    with w'(1) lg True show ?thesis
      by (simp add: cleanup_loop_Cons[OF pn] del: cleanup_loop.simps)
  qed
qed

section \<open>Facts about the whole run\<close>

lemma clean_up_restrict:
  assumes "clean_up_empty_folders asctime cwd d w = Inr w'" "wf_fs (files w)"
  shows "files w' = emit (written asctime w w') (AList.restrict
           (- {k. \<exists>n\<in>set (names_in (files w) (source_dir cwd d)).
                    k = source_dir cwd d @ [n] \<and> empty_dir (files w) k}) (files w))"
proof -
  let ?D = "source_dir cwd d"
  let ?names = "names_in (files w) ?D"
  from assms(1) have "cleanup_loop asctime cwd d ?names w = Inr w'"
    by (auto simp: clean_up_empty_folders_def os_listdir_str_def
        split: sum.splits if_splits dest!: os_listdir_Inr)
  with cleanup_loop_result[OF wf_names_plain[OF assms(2), of ?D] wf_names_distinct[OF assms(2), of ?D],
      where asctime=asctime and cwd=cwd and d=d and w=w]
  show ?thesis by auto
qed

lemma main_Inr:
  assumes "main asctime H cwd cfg w = Inr (w', counts)"
  obtains rules d w1 w2 where "cfg_folders cfg = Some rules" "cfg_download_dir cfg = Some d"
    "organize_files asctime cwd rules d w = Inr (w1, counts)"
    "remove_duplicates asctime H cwd rules d w1 = Inr w2"
    "clean_up_empty_folders asctime cwd d w2 = Inr w'"
  using assms by (auto simp: main_def split: option.splits sum.splits)

lemma plain_folder_is_child: "plain_name f \<Longrightarrow> folder_dir cwd d f = source_dir cwd d @ [f]"
  by (rule locate_truediv_plain)

lemma prefix_snoc_strict: "prefix (xs @ [x]) ys \<Longrightarrow> strict_prefix xs ys"
  by (auto simp: prefix_def strict_prefix_def)

lemma first_match_mem: "first_match rules n = Some f \<Longrightarrow> f \<in> fst ` set rules"
  by (induction rules) (auto split: if_splits)

lemma organize_no_rules_unlisted:
  assumes "\<not> is_dir (files w) (source_dir cwd d)"
  shows "\<exists>e. organize_files asctime cwd [] d w = Inl (e, w) \<and> (e = FileNotFoundError \<or> e = NotADirectoryError)"
proof (cases "d = []")
  case True
  then show ?thesis by (simp add: organize_files_def os_listdir_str_def)
next
  case False
  from assms obtain e where e: "dir_status (files w) (source_dir cwd d) = Some e"
    by (cases "dir_status (files w) (source_dir cwd d)") auto
  then have "e = FileNotFoundError \<or> e = NotADirectoryError"
    by (auto simp: dir_status_def split: option.splits entry.splits if_splits)
  with e False show ?thesis
    by (simp add: organize_files_def os_listdir_str_def os_listdir_def)
qed

section \<open>Facts about the variant\<close>

subsection \<open>Paths relative to the working directory\<close>

lemma locate_truediv:
  "locate cwd (truediv P s) =
     (if anchored (Path s) then parts (Path s) else locate cwd P @ parts (Path s))"
  by (simp add: truediv_def locate_def Let_def)

lemma locate_truediv_cong:
  "locate cwd P = locate cwd Q \<Longrightarrow> locate cwd (truediv P s) = locate cwd (truediv Q s)"
  by (simp add: locate_truediv)

lemma locate_Path_cwd:
  assumes "source_dir cwd d = cwd"
  shows "locate cwd (Path s) = folder_dir cwd d s"
  using assms by (simp add: locate_truediv) (simp add: locate_def)

lemma os_listdir_str_Path: "s \<noteq> [] \<Longrightarrow> os_listdir_str cwd fs s = os_listdir fs (locate cwd (Path s))"
  by (simp add: os_listdir_str_def)

lemma os_rmdir_str_Path: "s \<noteq> [] \<Longrightarrow> os_rmdir_str cwd fs s = os_rmdir fs (locate cwd (Path s))"
  by (simp add: os_rmdir_str_def)

subsection \<open>The two variants, stage by stage\<close>

lemma t_make_folders_eq:
  assumes "source_dir cwd d = cwd"
  shows "t_make_folders cwd rules fs = make_folders cwd d rules fs"
proof (induction rules arbitrary: fs)
  case Nil
  show ?case by simp
next
  case (Cons a rules)
  obtain folder exts where a: "a = (folder, exts)" by (cases a)
  show ?case
    unfolding a by (simp add: Let_def locate_Path_cwd[OF assms] Cons.IH split: sum.splits)
qed

lemma t_organize_loop_eq:
  assumes "source_dir cwd d = cwd"
  shows "t_organize_loop asctime cwd rules d names w c = organize_loop asctime cwd rules d names w c"
proof (induction names arbitrary: w c)
  case Nil
  show ?case by simp
next
  case (Cons n rest)
  have "locate cwd (truediv (Path folder) n) = locate cwd (truediv (truediv (Path d) folder) n)"
    for folder
    by (rule locate_truediv_cong) (rule locate_Path_cwd[OF assms])
  then show ?case
    by (simp add: Let_def Cons.IH split: option.splits sum.splits)
qed

lemma t_organize_files_eq:
  assumes "source_dir cwd d = cwd"
  shows "t_organize_files asctime cwd rules d w = organize_files asctime cwd rules d w"
  by (simp add: t_organize_files_def organize_files_def t_make_folders_eq[OF assms]
      t_organize_loop_eq[OF assms] split: sum.splits prod.splits)

lemma dedup_loop_cong:
  assumes "locate cwd P = locate cwd Q"
  shows "dedup_loop asctime H cwd P folder names seen w = dedup_loop asctime H cwd Q folder names seen w"
proof (induction names arbitrary: seen w)
  case Nil
  show ?case by simp
next
  case (Cons n rest)
  have "locate cwd (truediv P n) = locate cwd (truediv Q n)"
    by (rule locate_truediv_cong[OF assms])
  then show ?case
    by (simp add: Let_def Cons.IH split: sum.splits)
qed

lemma t_dedup_folder_eq:
  assumes "source_dir cwd d = cwd" "folder \<noteq> []"
  shows "t_dedup_folder asctime H cwd folder w = dedup_folder asctime H cwd d folder w"
  using dedup_loop_cong[OF locate_Path_cwd[OF assms(1)], where asctime=asctime and H=H and folder=folder]
  by (simp add: t_dedup_folder_def dedup_folder_def Let_def os_listdir_str_Path[OF assms(2)]
      locate_Path_cwd[OF assms(1)] split: sum.splits)

lemma t_remove_duplicates_eq:
  assumes "source_dir cwd d = cwd" "list_all (\<lambda>(f, exts). f \<noteq> []) rules"
  shows "t_remove_duplicates asctime H cwd rules w = remove_duplicates asctime H cwd rules d w"
  using assms(2)
proof (induction rules arbitrary: w)
  case Nil
  show ?case by simp
next
  case (Cons a rules)
  obtain folder exts where a: "a = (folder, exts)" by (cases a)
  with Cons.prems have f: "folder \<noteq> []" and r: "list_all (\<lambda>(f, exts). f \<noteq> []) rules" by auto
  show ?case
    unfolding a by (simp add: t_dedup_folder_eq[OF assms(1) f] Cons.IH[OF r] split: sum.splits)
qed

lemma t_cleanup_loop_eq:
  assumes "source_dir cwd d = cwd" "[] \<notin> set names"
  shows "t_cleanup_loop asctime cwd names w = cleanup_loop asctime cwd d names w"
  using assms(2)
proof (induction names arbitrary: w)
  case Nil
  show ?case by simp
next
  case (Cons n rest)
  then have n: "n \<noteq> []" and r: "[] \<notin> set rest" by auto
  show ?case
    by (simp add: Let_def os_listdir_str_Path[OF n] os_rmdir_str_Path[OF n]
        locate_Path_cwd[OF assms(1)] Cons.IH[OF r] split: sum.splits)
qed

lemma t_clean_up_eq:
  assumes "source_dir cwd d = cwd" "d \<noteq> []" "wf_fs (files w)"
  shows "t_clean_up_empty_folders asctime cwd w = clean_up_empty_folders asctime cwd d w"
proof (cases "os_listdir (files w) cwd")
  case (Inl e)
  with assms(1,2) show ?thesis
    by (simp add: t_clean_up_empty_folders_def clean_up_empty_folders_def os_listdir_str_Path)
next
  case (Inr names)
  from os_listdir_Inr[OF this] wf_fs_names_plain[OF assms(3)] have "[] \<notin> set names"
    by (auto simp: plain_name_def)
  from t_cleanup_loop_eq[OF assms(1) this] Inr assms(1,2) show ?thesis
    by (simp add: t_clean_up_empty_folders_def clean_up_empty_folders_def os_listdir_str_Path)
qed

section \<open>Claims about the organize stage\<close>

text \<open>
  Claim C1, as amended. When the organize stage returns (having added its records to
  those logged before), every regular file of the
  download directory whose name ends with a configured suffix is found under its own
  name in the folder of the first matching rule, and is gone from the download directory
  (unless that folder is the download directory itself), provided that name in the
  folder is not a directory. It has the content it had, to which, if it is the log file
  that the program holds open, the records of the stage have been appended. The count of
  a folder is the number of regular files routed to it.
\<close>

theorem matched_file_routed:
  assumes "organize_files asctime cwd rules d w = Inr (w', counts)"
    and "wf_fs (files w)" and "plain_path cwd"
    and "is_file (files w) (source_dir cwd d @ [n])"
    and "first_match rules n = Some f"
    and "\<not> is_dir (files w') (folder_dir cwd d f @ [n])"
    and "in_scope d rules"
  shows "(\<exists>evs. log w' = log w @ evs)
       \<and> lookup (files w') (folder_dir cwd d f @ [n])
           = map_option (appended (written asctime w w')) (lookup (files w) (source_dir cwd d @ [n]))
       \<and> (folder_dir cwd d f \<noteq> source_dir cwd d
            \<longrightarrow> lookup (files w') (source_dir cwd d @ [n]) = None)
       \<and> counter_get counts f =
           length (filter (\<lambda>m. routed cwd rules d (files w) m f)
                     (names_in (files w) (source_dir cwd d)))"
proof -
  let ?D = "source_dir cwd d" and ?P = "folder_dir cwd d f"
  from assms(1-3) obtain fs1 A where g: "grows (files w) A fs1"
    and loop: "organize_loop asctime cwd rules d (names_in fs1 ?D) (w\<lparr>files := fs1\<rparr>) [] = Inr (w', counts)"
    and pl: "list_all plain_name (names_in fs1 ?D)"
    and di: "distinct (names_in fs1 ?D)"
    by (rule organize_files_Inr)
  from assms(4) obtain c r l where f: "lookup (files w) (?D @ [n]) = Some (File c r l)"
    by (auto simp: is_file_lookup)
  have wr: "written asctime (w\<lparr>files := fs1\<rparr>) w' = written asctime w w'"
    by (simp add: written_def)
  from grows_lookup_old[OF g f] have f1: "lookup fs1 (?D @ [n]) = Some (File c r l)" .
  then have r1: "routed cwd rules d (files (w\<lparr>files := fs1\<rparr>)) n f"
    using assms(5) by (simp add: is_file_lookup)
  have n1: "n \<in> set (names_in fs1 ?D)"
    using f1 by (intro is_file_listed) (simp add: is_file_lookup)
  have "is_dir fs1 (?P @ [n]) = is_dir (files w') (?P @ [n])"
    using organize_loop_is_dir[OF loop pl] by simp
  with assms(6) have la: "landing fs1 (?P @ [n]) n = ?P @ [n]"
    by (simp add: landing_def)
  from organize_loop_moved[OF loop pl di n1 r1] la f1 f
  have 1: "lookup (files w') (?P @ [n])
           = map_option (appended (written asctime w w')) (lookup (files w) (?D @ [n]))"
    and 2: "?P \<noteq> ?D \<longrightarrow> lookup (files w') (?D @ [n]) = None"
    by (simp_all add: wr)
  have "counter_get counts f = length (filter (\<lambda>m. routed cwd rules d fs1 m f) (names_in fs1 ?D))"
    using organize_loop_counts[OF loop pl di, of f] by (simp add: counter_get_def)
  also have "filter (\<lambda>m. routed cwd rules d fs1 m f) (names_in fs1 ?D)
           = filter (\<lambda>m. routed cwd rules d (files w) m f) (names_in (files w) ?D)"
    by (rule grows_filter_files[OF g])
  finally have 3: "counter_get counts f =
      length (filter (\<lambda>m. routed cwd rules d (files w) m f) (names_in (files w) ?D))" .
  have 0: "\<exists>evs. log w' = log w @ evs"
    using organize_loop_log_grows[of asctime cwd rules d "names_in fs1 ?D" "w\<lparr>files := fs1\<rparr>" "[]"]
      loop by simp
  from 0 1 2 3 show ?thesis by blast
qed

theorem matched_file_routed_witness:
  "organize_files noon [''tmp'', ''src''] log_rules ''/tmp/src'' log_world
     = Inr (log_moved, [(''images'', 1), (''logs'', 1)])
   \<and> wf_fs (files log_world) \<and> plain_path [''tmp'', ''src''] \<and> in_scope ''/tmp/src'' log_rules
   \<and> is_file (files log_world) [''tmp'', ''src'', ''4NSIKfilefix.log'']
   \<and> first_match log_rules ''4NSIKfilefix.log'' = Some ''logs''
   \<and> \<not> is_dir (files log_moved) [''tmp'', ''src'', ''logs'', ''4NSIKfilefix.log'']
   \<and> lookup (files log_moved) [''tmp'', ''src'', ''logs'', ''4NSIKfilefix.log'']
       = Some (File (''12:00 - INFO - Moved a.jpg to images'' @ [CHR 0x0A] @
                     ''12:00 - INFO - Moved 4NSIKfilefix.log to logs'' @ [CHR 0x0A]) True True)
   \<and> lookup (files log_moved) [''tmp'', ''src'', ''4NSIKfilefix.log''] = None
   \<and> counter_get [(''images'', 1), (''logs'', 1)] ''logs'' = 1"
proof -
  let ?cwd = "[''tmp'', ''src'']" and ?n = "''4NSIKfilefix.log''"
  have r: "organize_files noon ?cwd log_rules ''/tmp/src'' log_world
           = Inr (log_moved, [(''images'', 1), (''logs'', 1)])"
    by code_simp
  have w: "wf_fs (files log_world)" by code_simp
  have p: "plain_path ?cwd" by code_simp
  have sc: "in_scope ''/tmp/src'' log_rules" by code_simp
  have s: "source_dir ?cwd ''/tmp/src'' = [''tmp'', ''src'']" by code_simp
  have t: "folder_dir ?cwd ''/tmp/src'' ''logs'' = [''tmp'', ''src'', ''logs'']" by code_simp
  have f: "is_file (files log_world) (source_dir ?cwd ''/tmp/src'' @ [?n])" by code_simp
  have n: "first_match log_rules ?n = Some ''logs''" by code_simp
  have e: "\<not> is_dir (files log_moved) (folder_dir ?cwd ''/tmp/src'' ''logs'' @ [?n])"
    by code_simp
  have l: "lookup (files log_world) [''tmp'', ''src'', ''4NSIKfilefix.log'']
           = Some (File [] True True)"
    by code_simp
  have wr: "written noon log_world log_moved
            = ''12:00 - INFO - Moved a.jpg to images'' @ [CHR 0x0A] @
              ''12:00 - INFO - Moved 4NSIKfilefix.log to logs'' @ [CHR 0x0A]"
    by code_simp
  have c: "length (filter (\<lambda>m. routed ?cwd log_rules ''/tmp/src'' (files log_world) m ''logs'')
                     (names_in (files log_world) (source_dir ?cwd ''/tmp/src''))) = 1"
    by code_simp
  from matched_file_routed[OF r w p f n e sc] r w p f n e sc l c show ?thesis
    by (simp add: s t wr)
qed

text \<open>
  The claim without the proviso fails: with \<^verbatim>\<open>/tmp/src/images/a.jpg\<close> a directory, the
  stage returns, counts one file for \<^verbatim>\<open>images\<close>, and \<^verbatim>\<open>a.jpg\<close> is not an entry of
  \<^verbatim>\<open>images\<close> but of \<^verbatim>\<open>images/a.jpg\<close>.
\<close>

theorem matched_file_routed_counterexample:
  "organize_files noon [] ex_rules ''/tmp/src'' dir_world = Inr (dir_organized, [(''images'', 1)])
   \<and> is_file (files dir_world) [''tmp'', ''src'', ''a.jpg'']
   \<and> first_match ex_rules ''a.jpg'' = Some ''images''
   \<and> folder_dir [] ''/tmp/src'' ''images'' = [''tmp'', ''src'', ''images'']
   \<and> \<not> is_file (files dir_organized) [''tmp'', ''src'', ''images'', ''a.jpg'']
   \<and> is_file (files dir_organized) [''tmp'', ''src'', ''images'', ''a.jpg'', ''a.jpg'']"
  by code_simp

text \<open>
  Claim C5, as amended. If no configured folder resolves to the download directory
  itself, then after a run of the organize stage that returned, a second run returns as
  well, logs no move and returns a count of zero for every folder.
\<close>

theorem organize_twice_moves_nothing:
  assumes run: "organize_files asctime cwd rules d w = Inr (w1, c1)"
    and wf: "wf_fs (files w)" and cwd: "plain_path cwd"
    and ne: "list_all (\<lambda>(f, exts). folder_dir cwd d f \<noteq> source_dir cwd d) rules"
    and "in_scope d rules"
  shows "\<exists>w2 c2. organize_files asctime cwd rules d w1 = Inr (w2, c2)
           \<and> (\<forall>f. counter_get c2 f = 0) \<and> log w2 = log w1"
proof -
  let ?D = "source_dir cwd d"
  from run wf cwd obtain fs1 A where mk: "make_folders cwd d rules (files w) = Inr fs1"
    and wf1: "wf_fs fs1" and dir1: "is_dir fs1 ?D"
    and loop: "organize_loop asctime cwd rules d (names_in fs1 ?D) (w\<lparr>files := fs1\<rparr>) [] = Inr (w1, c1)"
    and pl: "list_all plain_name (names_in fs1 ?D)"
    and di: "distinct (names_in fs1 ?D)"
    by (rule organize_files_Inr)
  from run have d: "d \<noteq> []"
    by (auto simp: organize_files_def os_listdir_str_def split: sum.splits if_splits)
  have wfA: "wf_fs (files w1)"
    using organize_loop_wf[OF loop pl _ cwd] wf1 by simp
  have dirA: "is_dir (files w1) ?D"
    using organize_loop_is_dir[OF loop pl, of ?D] dir1 by simp
  have unm: "first_match rules m = None" if "is_file (files w1) (?D @ [m])" for m
    using organize_loop_leaves_unmatched[OF loop pl di _ ne that] is_file_listed by simp
  have "list_all (\<lambda>(f, exts). path_exists (files w1) (folder_dir cwd d f)
                    \<or> is_dir (files w1) (butlast (folder_dir cwd d f))) rules"
    unfolding list_all_iff
  proof (clarify)
    fix f exts assume "(f, exts) \<in> set rules"
      and nd: "\<not> is_dir (files w1) (butlast (folder_dir cwd d f))"
    then have "f \<in> fst ` set rules" by force
    from make_folders_exist[OF mk this] have e1: "lookup fs1 (folder_dir cwd d f) \<noteq> None"
      by (simp add: path_exists_def)
    show "path_exists (files w1) (folder_dir cwd d f)"
    proof (rule ccontr)
      assume "\<not> path_exists (files w1) (folder_dir cwd d f)"
      then have "lookup (files w1) (folder_dir cwd d f) = None" by (simp add: path_exists_def)
      with organize_loop_removed[OF loop pl, of "folder_dir cwd d f"] e1
      obtain n where "folder_dir cwd d f = ?D @ [n]" by auto
      with dirA nd show False by simp
    qed
  qed
  from make_folders_succeeds[OF this] obtain fsB where
    mk2: "make_folders cwd d rules (files w1) = Inr fsB" by blast
  let ?A = "\<Union>f\<in>fst ` set rules. set (prefixes (folder_dir cwd d f))"
  have g: "grows (files w1) ?A fsB" by (rule make_folders_grows[OF mk2])
  have "\<forall>k\<in>?A. plain_path k"
    by (auto simp: in_set_prefixes intro!: prefix_plain[OF plain_folder_dir[OF cwd]])
  from grows_wf[OF g wfA this] have wfB: "wf_fs fsB" .
  have dirB: "is_dir fsB ?D" by (rule grows_is_dir[OF g dirA])
  have ls: "os_listdir_str cwd fsB d = Inr (names_in fsB ?D)"
    using d dirB by (simp add: os_listdir_str_def os_listdir_dir)
  have plB: "list_all plain_name (names_in fsB ?D)"
    using wf_fs_names_plain[OF wfB] by (auto simp: list_all_iff)
  have "\<forall>n\<in>set (names_in fsB ?D).
          is_file (files (w1\<lparr>files := fsB\<rparr>)) (?D @ [n]) \<longrightarrow> first_match rules n = None"
    using unm by (simp add: grows_is_file[OF g])
  from organize_loop_all_skip[OF plB this]
  have "organize_files asctime cwd rules d w1 = Inr (w1\<lparr>files := fsB\<rparr>, [])"
    by (simp add: organize_files_def mk2 ls)
  then show ?thesis by (auto simp: counter_get_def)
qed

theorem organize_twice_moves_nothing_witness:
  "organize_files noon [] ex_rules ''/tmp/src'' ex_world = Inr (ex_organized, ex_counts)
   \<and> wf_fs (files ex_world) \<and> plain_path [] \<and> in_scope ''/tmp/src'' ex_rules
   \<and> list_all (\<lambda>(f, exts). folder_dir [] ''/tmp/src'' f \<noteq> source_dir [] ''/tmp/src'') ex_rules
   \<and> (\<exists>w2 c2. organize_files noon [] ex_rules ''/tmp/src'' ex_organized = Inr (w2, c2)
         \<and> counter_get c2 ''images'' = 0 \<and> counter_get c2 ''docs'' = 0
         \<and> log w2 = log ex_organized)"
proof -
  have r: "organize_files noon [] ex_rules ''/tmp/src'' ex_world = Inr (ex_organized, ex_counts)"
    by code_simp
  have w: "wf_fs (files ex_world)" by code_simp
  have p: "plain_path []" by code_simp
  have sc: "in_scope ''/tmp/src'' ex_rules" by code_simp
  have n: "list_all (\<lambda>(f, exts). folder_dir [] ''/tmp/src'' f \<noteq> source_dir [] ''/tmp/src'') ex_rules"
    by code_simp
  from organize_twice_moves_nothing[OF r w p n sc] obtain w2 c2 where
    "organize_files noon [] ex_rules ''/tmp/src'' ex_organized = Inr (w2, c2)"
    "\<forall>f. counter_get c2 f = 0" "log w2 = log ex_organized"
    by blast
  then have "\<exists>w2 c2. organize_files noon [] ex_rules ''/tmp/src'' ex_organized = Inr (w2, c2)
         \<and> counter_get c2 ''images'' = 0 \<and> counter_get c2 ''docs'' = 0
         \<and> log w2 = log ex_organized"
    by blast
  with r w p n sc show ?thesis by blast
qed

text \<open>
  Without the proviso the claim fails: with the rule \<^verbatim>\<open>{".": [".txt"]}\<close> the folder is
  the download directory, \<^verbatim>\<open>c.txt\<close> is renamed onto itself and counted, in the first run
  and again in the second.
\<close>

theorem organize_twice_moves_nothing_counterexample:
  "organize_files noon [] dot_rules ''/tmp/src'' dot_world = Inr (dot_once, [(''.'', 1)])
   \<and> organize_files noon [] dot_rules ''/tmp/src'' dot_once = Inr (dot_twice, [(''.'', 1)])
   \<and> log dot_twice = log dot_once @ [Moved ''c.txt'' ''.'']
   \<and> counter_get [(''.'', 1)] ''.'' = 1"
  by code_simp

text \<open>
  Claim C6, as amended. A regular file of the download directory whose name ends with no
  configured suffix is left where it is by the organize stage, whether the stage returns
  or fails (\<open>ostate\<close> is the state it ends in, with the records of the stage added to
  those logged before). Its content is what it was, except that
  the log file which the program holds open, when it is such a file, has gained the
  records of the stage; any other file is exactly as it was. No move of the file is
  logged; and when the stage returns, the count of every folder is the number of
  \<^emph>\<open>other\<close> regular files routed to that folder, so the file adds nothing to any count.
\<close>

theorem unmatched_file_untouched:
  assumes "wf_fs (files w)" and "plain_path cwd"
    and "is_file (files w) (source_dir cwd d @ [n])"
    and "first_match rules n = None"
    and "in_scope d rules"
  shows "(\<exists>evs. log (ostate (organize_files asctime cwd rules d w)) = log w @ evs)
       \<and> lookup (files (ostate (organize_files asctime cwd rules d w))) (source_dir cwd d @ [n])
           = map_option
               (appended (written asctime w (ostate (organize_files asctime cwd rules d w))))
               (lookup (files w) (source_dir cwd d @ [n]))
       \<and> (\<forall>c r. lookup (files w) (source_dir cwd d @ [n]) = Some (File c r False) \<longrightarrow>
            lookup (files (ostate (organize_files asctime cwd rules d w))) (source_dir cwd d @ [n])
              = Some (File c r False))
       \<and> (\<forall>f. (n, f) \<notin> set (moves_of (drop (length (log w))
                                   (log (ostate (organize_files asctime cwd rules d w))))))
       \<and> (\<forall>w' counts. organize_files asctime cwd rules d w = Inr (w', counts) \<longrightarrow>
            (\<forall>f. counter_get counts f =
               length (filter (\<lambda>m. m \<noteq> n \<and> is_file (files w) (source_dir cwd d @ [m])
                                   \<and> first_match rules m = Some f)
                         (names_in (files w) (source_dir cwd d)))))"
proof -
  let ?D = "source_dir cwd d"
  let ?A = "\<Union>f\<in>fst ` set rules. set (prefixes (folder_dir cwd d f))"
  let ?r = "organize_files asctime cwd rules d w"
  from assms(3) obtain c r l where f: "lookup (files w) (?D @ [n]) = Some (File c r l)"
    by (auto simp: is_file_lookup)
  have pA: "\<forall>k\<in>?A. plain_path k"
    by (auto simp: in_set_prefixes intro!: prefix_plain[OF plain_folder_dir[OF assms(2)]])
  have 12: "lookup (files (ostate ?r)) (?D @ [n])
              = map_option (appended (written asctime w (ostate ?r))) (lookup (files w) (?D @ [n]))
            \<and> (\<forall>f. (n, f) \<notin> set (moves_of (drop (length (log w)) (log (ostate ?r)))))"
  proof (cases "make_folders cwd d rules (files w)")
    case (Inl x)
    obtain e fs' where x: "x = (e, fs')" by (cases x)
    from make_folders_Inl_grows[where cwd=cwd and d=d and rules=rules and fs="files w"
        and e=e and fs'=fs'] Inl x
    have "grows (files w) ?A fs'" by simp
    from grows_lookup_old[OF this f] f Inl x show ?thesis
      by (simp add: organize_files_def written_def)
  next
    case (Inr fs1)
    have g: "grows (files w) ?A fs1" by (rule make_folders_grows[OF Inr])
    have f1: "lookup fs1 (?D @ [n]) = lookup (files w) (?D @ [n])"
      using grows_lookup_old[OF g f] f by simp
    show ?thesis
    proof (cases "os_listdir_str cwd fs1 d")
      case (Inl e)
      with Inr f1 f show ?thesis by (simp add: organize_files_def written_def)
    next
      case (Inr names)
      then have nm: "names = names_in fs1 ?D"
        by (auto simp: os_listdir_str_def split: if_splits dest: os_listdir_Inr)
      from grows_wf[OF g assms(1) pA] have wf1: "wf_fs fs1" .
      have pl: "list_all plain_name names"
        unfolding nm using wf_fs_names_plain[OF wf1] by (auto simp: list_all_iff)
      have di: "distinct names"
        unfolding nm using wf1 by (auto simp: wf_fs_def intro: names_in_distinct)
      let ?w1 = "w\<lparr>files := fs1\<rparr>"
      have r: "?r = organize_loop asctime cwd rules d names ?w1 []"
        using \<open>make_folders cwd d rules (files w) = Inr fs1\<close> Inr
        by (simp add: organize_files_def)
      have wr: "written asctime ?w1 w2 = written asctime w w2" for w2
        by (simp add: written_def)
      have "lookup (files (ostate ?r)) (?D @ [n])
            = map_option (appended (written asctime w (ostate ?r))) (lookup fs1 (?D @ [n]))"
        unfolding r using organize_loop_frame_any[OF pl di, where q="?D @ [n]" and cwd=cwd
            and rules=rules and d=d and w="?w1" and c="[]" and asctime=asctime]
          assms(4) by (simp add: wr)
      moreover from organize_loop_log_any[OF pl, where cwd=cwd and rules=rules and d=d
          and w="?w1" and c="[]"] obtain evs where
        "log (ostate ?r) = log w @ evs"
        "\<forall>m\<in>set (moves_of evs). first_match rules (fst m) = Some (snd m)"
        unfolding r by auto
      ultimately show ?thesis using f1 assms(4) by auto
    qed
  qed
  have 3: "counter_get counts f =
           length (filter (\<lambda>m. m \<noteq> n \<and> is_file (files w) (?D @ [m]) \<and> first_match rules m = Some f)
                     (names_in (files w) ?D))"
    if run: "?r = Inr (w', counts)" for w' counts f
  proof -
    from run assms(1,2) obtain fs1 A where g: "grows (files w) A fs1"
      and loop: "organize_loop asctime cwd rules d (names_in fs1 ?D) (w\<lparr>files := fs1\<rparr>) [] = Inr (w', counts)"
      and pl: "list_all plain_name (names_in fs1 ?D)"
      and di: "distinct (names_in fs1 ?D)"
      by (rule organize_files_Inr)
    have "counter_get counts f = length (filter (\<lambda>m. routed cwd rules d fs1 m f) (names_in fs1 ?D))"
      using organize_loop_counts[OF loop pl di, of f] by (simp add: counter_get_def)
    also have "filter (\<lambda>m. routed cwd rules d fs1 m f) (names_in fs1 ?D)
             = filter (\<lambda>m. routed cwd rules d (files w) m f) (names_in (files w) ?D)"
      by (rule grows_filter_files[OF g])
    also have "\<dots> = filter (\<lambda>m. m \<noteq> n \<and> is_file (files w) (?D @ [m]) \<and> first_match rules m = Some f)
                        (names_in (files w) ?D)"
      by (rule filter_cong) (use assms(4) in auto)
    finally show ?thesis .
  qed
  from 12 have 2: "lookup (files (ostate ?r)) (?D @ [n]) = Some (File c0 r0 False)"
    if "lookup (files w) (?D @ [n]) = Some (File c0 r0 False)" for c0 r0
    using that by simp
  have 0: "\<exists>evs. log (ostate ?r) = log w @ evs"
  proof (cases "make_folders cwd d rules (files w)")
    case (Inl x)
    then show ?thesis by (cases x) (simp add: organize_files_def)
  next
    case (Inr fs1)
    show ?thesis
    proof (cases "os_listdir_str cwd fs1 d")
      case (Inl e)
      with Inr show ?thesis by (simp add: organize_files_def)
    next
      case names: (Inr names)
      from organize_loop_log_grows[of asctime cwd rules d names "w\<lparr>files := fs1\<rparr>" "[]"]
        Inr names show ?thesis by (simp add: organize_files_def)
    qed
  qed
  from 0 12 2 3 show ?thesis by blast
qed

theorem unmatched_file_untouched_witness:
  "wf_fs (files log_world) \<and> plain_path [''tmp'', ''src'']
   \<and> is_file (files log_world) (source_dir [''tmp'', ''src''] ''/tmp/src'' @ [log_name])
   \<and> first_match ex_rules log_name = None
   \<and> in_scope ''/tmp/src'' ex_rules
   \<and> organize_files noon [''tmp'', ''src''] ex_rules ''/tmp/src'' log_world
       = Inr (log_organized, [(''images'', 1)])
   \<and> lookup (files log_organized) (source_dir [''tmp'', ''src''] ''/tmp/src'' @ [log_name])
       = Some (File (''12:00 - INFO - Moved a.jpg to images'' @ [CHR 0x0A]) True True)
   \<and> counter_get [(''images'', 1)] ''images'' = 1"
proof -
  let ?cwd = "[''tmp'', ''src'']"
  have w: "wf_fs (files log_world)" by code_simp
  have p: "plain_path ?cwd" by code_simp
  have f: "is_file (files log_world) (source_dir ?cwd ''/tmp/src'' @ [log_name])" by code_simp
  have n: "first_match ex_rules log_name = None" by code_simp
  have sc: "in_scope ''/tmp/src'' ex_rules" by code_simp
  have r: "organize_files noon ?cwd ex_rules ''/tmp/src'' log_world
           = Inr (log_organized, [(''images'', 1)])"
    by code_simp
  have l: "lookup (files log_world) (source_dir ?cwd ''/tmp/src'' @ [log_name])
           = Some (File [] True True)"
    by code_simp
  have t: "written noon log_world log_organized
           = ''12:00 - INFO - Moved a.jpg to images'' @ [CHR 0x0A]"
    by code_simp
  have c: "length (filter (\<lambda>m. m \<noteq> log_name
                     \<and> is_file (files log_world) (source_dir ?cwd ''/tmp/src'' @ [m])
                     \<and> first_match ex_rules m = Some ''images'')
             (names_in (files log_world) (source_dir ?cwd ''/tmp/src''))) = 1"
    by code_simp
  note u = unmatched_file_untouched[OF w p f n sc, of noon]
  from u have "lookup (files (ostate (organize_files noon ?cwd ex_rules ''/tmp/src'' log_world)))
         (source_dir ?cwd ''/tmp/src'' @ [log_name])
       = map_option
           (appended (written noon log_world
              (ostate (organize_files noon ?cwd ex_rules ''/tmp/src'' log_world))))
           (lookup (files log_world) (source_dir ?cwd ''/tmp/src'' @ [log_name]))"
    by blast
  then have 1: "lookup (files log_organized) (source_dir ?cwd ''/tmp/src'' @ [log_name])
       = Some (File (''12:00 - INFO - Moved a.jpg to images'' @ [CHR 0x0A]) True True)"
    unfolding r l by (simp add: t)
  from u have "\<forall>w' counts. organize_files noon ?cwd ex_rules ''/tmp/src'' log_world
                   = Inr (w', counts) \<longrightarrow>
            (\<forall>f. counter_get counts f =
               length (filter (\<lambda>m. m \<noteq> log_name
                                 \<and> is_file (files log_world) (source_dir ?cwd ''/tmp/src'' @ [m])
                                 \<and> first_match ex_rules m = Some f)
                         (names_in (files log_world) (source_dir ?cwd ''/tmp/src''))))"
    by blast
  from this[rule_format, OF r, of "''images''"] c
  have 2: "counter_get [(''images'', 1)] ''images'' = 1" by simp
  from w p f n sc r 1 2 show ?thesis by blast
qed

text \<open>
  The claim as it stands fails for the log file. The program was started in its download
  directory, so loading the module has created \<^verbatim>\<open>4NSIKfilefix.log\<close> there. Its name ends
  with no configured suffix, and the organize stage leaves it in place; but the record of
  the move of \<^verbatim>\<open>a.jpg\<close> has been written to it, so its content is not what it was.
\<close>

theorem unmatched_file_untouched_counterexample:
  "configure_logging [''tmp'', ''src''] log_base = Inr (files log_world)
   \<and> organize_files noon [''tmp'', ''src''] ex_rules ''/tmp/src'' log_world
       = Inr (log_organized, [(''images'', 1)])
   \<and> is_file (files log_world) [''tmp'', ''src'', ''4NSIKfilefix.log'']
   \<and> first_match ex_rules ''4NSIKfilefix.log'' = None
   \<and> lookup (files log_world) [''tmp'', ''src'', ''4NSIKfilefix.log''] = Some (File [] True True)
   \<and> lookup (files log_organized) [''tmp'', ''src'', ''4NSIKfilefix.log'']
       = Some (File (''12:00 - INFO - Moved a.jpg to images'' @ [CHR 0x0A]) True True)"
  by code_simp

text \<open>
  Claim C10. In a run of the organize stage that returns, the moves it logs name pairwise
  different files, each move goes to the first matching folder of its file, the count of
  a folder is the number of moves into it, and the counts add up to the number of moves.
\<close>

theorem each_file_moved_once:
  assumes "organize_files asctime cwd rules d w = Inr (w', counts)"
    and "wf_fs (files w)" and "plain_path cwd" and "in_scope d rules"
  shows "log w' = log w @ drop (length (log w)) (log w')
       \<and> distinct (map fst (moves_of (drop (length (log w)) (log w'))))
       \<and> list_all (\<lambda>m. first_match rules (fst m) = Some (snd m))
            (moves_of (drop (length (log w)) (log w')))
       \<and> (\<forall>f. counter_get counts f =
               length (filter (\<lambda>m. snd m = f) (moves_of (drop (length (log w)) (log w')))))
       \<and> sum_list (map snd counts) = length (moves_of (drop (length (log w)) (log w')))"
proof -
  let ?D = "source_dir cwd d"
  from assms(1-3) obtain fs1 A where
    loop: "organize_loop asctime cwd rules d (names_in fs1 ?D) (w\<lparr>files := fs1\<rparr>) [] = Inr (w', counts)"
    and pl: "list_all plain_name (names_in fs1 ?D)"
    and di: "distinct (names_in fs1 ?D)"
    by (rule organize_files_Inr)
  let ?xs = "filter (\<lambda>n. is_file fs1 (?D @ [n]) \<and> first_match rules n \<noteq> None) (names_in fs1 ?D)"
  let ?evs = "drop (length (log w)) (log w')"
  have lg: "log w' = log w @ map (\<lambda>n. Moved n (the (first_match rules n))) ?xs"
    using organize_loop_log[OF loop pl di] by simp
  then have evs: "?evs = map (\<lambda>n. Moved n (the (first_match rules n))) ?xs" by simp
  have mv: "moves_of ?evs = map (\<lambda>n. (n, the (first_match rules n))) ?xs"
    unfolding evs by (rule moves_of_map_Moved)
  have 1: "log w' = log w @ ?evs" using lg by simp
  have 2: "distinct (map fst (moves_of ?evs))"
    unfolding mv using di by (simp add: comp_def)
  have 3: "list_all (\<lambda>m. first_match rules (fst m) = Some (snd m)) (moves_of ?evs)"
    unfolding mv by (auto simp: list_all_iff)
  have 4: "counter_get counts f = length (filter (\<lambda>m. snd m = f) (moves_of ?evs))" for f
  proof -
    have "filter (\<lambda>n. the (first_match rules n) = f) ?xs
          = filter (\<lambda>n. routed cwd rules d fs1 n f) (names_in fs1 ?D)"
      unfolding filter_filter by (rule filter_cong) auto
    then have "length (filter (\<lambda>m. snd m = f) (moves_of ?evs))
          = length (filter (\<lambda>n. routed cwd rules d fs1 n f) (names_in fs1 ?D))"
      unfolding mv by (simp add: filter_map comp_def)
    with organize_loop_counts[OF loop pl di, of f] show ?thesis
      by (simp add: counter_get_def)
  qed
  have 5: "sum_list (map snd counts) = length (moves_of ?evs)"
    unfolding mv using organize_loop_total[OF loop pl di] by simp
  from 1 2 3 4 5 show ?thesis by blast
qed

theorem each_file_moved_once_witness:
  "organize_files noon [] ex_rules ''/tmp/src'' ex_world = Inr (ex_organized, ex_counts)
   \<and> wf_fs (files ex_world) \<and> plain_path [] \<and> in_scope ''/tmp/src'' ex_rules
   \<and> distinct (map fst (moves_of (drop (length (log ex_world)) (log ex_organized))))
   \<and> sum_list (map snd ex_counts) = length (moves_of (drop (length (log ex_world)) (log ex_organized)))"
proof -
  have r: "organize_files noon [] ex_rules ''/tmp/src'' ex_world = Inr (ex_organized, ex_counts)"
    by code_simp
  have w: "wf_fs (files ex_world)" by code_simp
  have p: "plain_path []" by code_simp
  have sc: "in_scope ''/tmp/src'' ex_rules" by code_simp
  from each_file_moved_once[OF r w p sc] r w p sc show ?thesis by simp
qed

section \<open>Claims about the deduplicate stage\<close>

text \<open>
  Claim C2, as amended. Take a rule set whose folders are directories in which every
  regular file can be read and none is the log file that the program holds open. Then
  the deduplicate stage returns, and for each of these folders: no two regular files left
  in it have the same digest; and a regular file of the folder is deleted exactly if a
  file listed before it, in the listing taken before the stage, has the same digest,
  otherwise it is left as it was. So of each group of equal digest the first listed file
  survives and all later ones are deleted.
\<close>

theorem dedup_keeps_first_listed:
  assumes "wf_fs (files w)" and "in_scope d rules"
    and "list_all (\<lambda>(f, exts). is_dir (files w) (folder_dir cwd d f) \<and>
                     list_all (\<lambda>n. steady (files w) (folder_dir cwd d f @ [n]))
                       (names_in (files w) (folder_dir cwd d f))) rules"
  shows "\<exists>w'. remove_duplicates asctime H cwd rules d w = Inr w' \<and>
           (\<forall>(f, exts)\<in>set rules.
              (\<forall>n m. n \<noteq> m \<longrightarrow> digest_at H (files w') (folder_dir cwd d f @ [n]) \<noteq> None \<longrightarrow>
                 digest_at H (files w') (folder_dir cwd d f @ [n])
                   \<noteq> digest_at H (files w') (folder_dir cwd d f @ [m]))
            \<and> (\<forall>n. digest_at H (files w) (folder_dir cwd d f @ [n]) \<noteq> None \<longrightarrow>
                 lookup (files w') (folder_dir cwd d f @ [n]) =
                   (if list_ex (\<lambda>m. digest_at H (files w) (folder_dir cwd d f @ [m])
                                      = digest_at H (files w) (folder_dir cwd d f @ [n]))
                         (listed_before (files w) (folder_dir cwd d f) n)
                    then None else lookup (files w) (folder_dir cwd d f @ [n]))))"
proof -
  let ?fs = "files w"
  have st: "\<forall>f\<in>fst ` set rules. is_dir ?fs (folder_dir cwd d f) \<and>
        (\<forall>n\<in>set (names_in ?fs (folder_dir cwd d f)). steady ?fs (folder_dir cwd d f @ [n]))"
    using assms(3) by (force simp: list_all_iff)
  from remove_duplicates_exact[OF assms(1) st, of asctime H] obtain w' where
    run: "remove_duplicates asctime H cwd rules d w = Inr w'"
    and l: "\<And>q. lookup (files w') q =
              (if \<exists>g\<in>fst ` set rules. dup_entry H ?fs (folder_dir cwd d g) q then None
               else map_option (appended (written asctime w w')) (lookup ?fs q))"
    by blast
  have "(\<forall>n m. n \<noteq> m \<longrightarrow> digest_at H (files w') (folder_dir cwd d f @ [n]) \<noteq> None \<longrightarrow>
            digest_at H (files w') (folder_dir cwd d f @ [n])
              \<noteq> digest_at H (files w') (folder_dir cwd d f @ [m]))
       \<and> (\<forall>n. digest_at H ?fs (folder_dir cwd d f @ [n]) \<noteq> None \<longrightarrow>
            lookup (files w') (folder_dir cwd d f @ [n]) =
              (if list_ex (\<lambda>m. digest_at H ?fs (folder_dir cwd d f @ [m])
                                 = digest_at H ?fs (folder_dir cwd d f @ [n]))
                    (listed_before ?fs (folder_dir cwd d f) n)
               then None else lookup ?fs (folder_dir cwd d f @ [n])))"
    if mem: "(f, exts) \<in> set rules" for f exts
  proof -
    let ?P = "folder_dir cwd d f"
    let ?names = "names_in ?fs ?P"
    from mem have fin: "f \<in> fst ` set rules" by force
    with st have sn: "\<forall>n\<in>set ?names. steady ?fs (?P @ [n])" by blast
    have de: "(\<exists>g\<in>fst ` set rules. dup_entry H ?fs (folder_dir cwd d g) (?P @ [n]))
              \<longleftrightarrow> n \<in> set ?names \<and> is_dup H ?fs ?P ?names {} n" for n
      using fin by (auto simp: dup_entry_def)
    have keep: "map_option (appended t) (lookup ?fs (?P @ [n])) = lookup ?fs (?P @ [n])" for n t
    proof (cases "n \<in> set ?names")
      case True
      with sn show ?thesis by (intro steady_same) blast
    next
      case False
      then have "lookup ?fs (?P @ [n]) = None"
        by (simp add: names_in_mem lookup_None_iff)
      then show ?thesis by simp
    qed
    have look: "lookup (files w') (?P @ [n]) =
                (if n \<in> set ?names \<and> is_dup H ?fs ?P ?names {} n then None
                 else lookup ?fs (?P @ [n]))" for n
      unfolding l[of "?P @ [n]"] de keep ..
    have 2: "lookup (files w') (?P @ [n]) =
               (if list_ex (\<lambda>m. digest_at H ?fs (?P @ [m]) = digest_at H ?fs (?P @ [n]))
                     (listed_before ?fs ?P n)
                then None else lookup ?fs (?P @ [n]))"
      if "digest_at H ?fs (?P @ [n]) \<noteq> None" for n
      using look[of n] that digest_at_listed[OF that]
      by (simp add: is_dup_digest listed_before_def)
    have surv: "digest_at H ?fs (?P @ [n]) = digest_at H (files w') (?P @ [n])
                \<and> n \<in> set ?names \<and> \<not> is_dup H ?fs ?P ?names {} n"
      if "digest_at H (files w') (?P @ [n]) \<noteq> None" for n
    proof -
      from that look[of n] have a: "\<not> (n \<in> set ?names \<and> is_dup H ?fs ?P ?names {} n)"
        and b: "lookup (files w') (?P @ [n]) = lookup ?fs (?P @ [n])"
        by (auto simp: digest_at_def split: if_splits)
      from b have c: "digest_at H ?fs (?P @ [n]) = digest_at H (files w') (?P @ [n])"
        by (simp add: digest_at_def)
      with that digest_at_listed[of H ?fs ?P n] a show ?thesis by simp
    qed
    have 1: "digest_at H (files w') (?P @ [n]) \<noteq> digest_at H (files w') (?P @ [m])"
      if nm: "n \<noteq> m" and dn: "digest_at H (files w') (?P @ [n]) \<noteq> None" for n m
    proof
      assume eq: "digest_at H (files w') (?P @ [n]) = digest_at H (files w') (?P @ [m])"
      with dn have dm: "digest_at H (files w') (?P @ [m]) \<noteq> None" by simp
      from surv[OF dn] surv[OF dm] eq
      have e: "digest_at H ?fs (?P @ [n]) = digest_at H ?fs (?P @ [m])"
        and mem: "n \<in> set ?names" "m \<in> set ?names"
        and nd: "\<not> is_dup H ?fs ?P ?names {} n" "\<not> is_dup H ?fs ?P ?names {} m"
        by simp_all
      from dn surv[OF dn] have d0: "digest_at H ?fs (?P @ [n]) \<noteq> None" by simp
      from takeWhile_either[OF mem nm]
      show False
      proof
        assume "n \<in> set (takeWhile (\<lambda>x. x \<noteq> m) ?names)"
        then have "is_dup H ?fs ?P ?names {} m"
          using e d0 by (auto simp: is_dup_digest list_ex_iff)
        with nd show False by simp
      next
        assume "m \<in> set (takeWhile (\<lambda>x. x \<noteq> n) ?names)"
        then have "is_dup H ?fs ?P ?names {} n"
          using e d0 by (auto simp: is_dup_digest list_ex_iff)
        with nd show False by simp
      qed
    qed
    from 1 2 show ?thesis by blast
  qed
  with run show ?thesis by blast
qed

theorem dedup_keeps_first_listed_witness:
  "wf_fs (files dup_world) \<and> in_scope ''/tmp/src'' [(''docs'', [''.pdf''])]
   \<and> list_all (\<lambda>(f, exts). is_dir (files dup_world) (folder_dir [] ''/tmp/src'' f) \<and>
                  list_all (\<lambda>n. steady (files dup_world) (folder_dir [] ''/tmp/src'' f @ [n]))
                    (names_in (files dup_world) (folder_dir [] ''/tmp/src'' f)))
        [(''docs'', [''.pdf''])]
   \<and> remove_duplicates noon (\<lambda>c. c) [] [(''docs'', [''.pdf''])] ''/tmp/src'' dup_world = Inr dup_after
   \<and> digest_at (\<lambda>c. c) (files dup_after) (folder_dir [] ''/tmp/src'' ''docs'' @ [''x.pdf''])
       \<noteq> digest_at (\<lambda>c. c) (files dup_after) (folder_dir [] ''/tmp/src'' ''docs'' @ [''y.pdf''])
   \<and> lookup (files dup_after) (folder_dir [] ''/tmp/src'' ''docs'' @ [''z.pdf'']) = None
   \<and> lookup (files dup_after) (folder_dir [] ''/tmp/src'' ''docs'' @ [''x.pdf''])
       = Some (File ''S'' True False)"
proof -
  let ?P = "folder_dir [] ''/tmp/src'' ''docs''"
  let ?H = "\<lambda>c::string. c"
  let ?rules = "[(''docs'', [''.pdf''])]"
  have w: "wf_fs (files dup_world)" by code_simp
  have sc: "in_scope ''/tmp/src'' ?rules" by code_simp
  have st: "list_all (\<lambda>(f, exts). is_dir (files dup_world) (folder_dir [] ''/tmp/src'' f) \<and>
                  list_all (\<lambda>n. steady (files dup_world) (folder_dir [] ''/tmp/src'' f @ [n]))
                    (names_in (files dup_world) (folder_dir [] ''/tmp/src'' f))) ?rules"
    by code_simp
  have r: "remove_duplicates noon ?H [] ?rules ''/tmp/src'' dup_world = Inr dup_after"
    by code_simp
  from dedup_keeps_first_listed[OF w sc st, of noon ?H] r
  have t: "(\<forall>n m. n \<noteq> m \<longrightarrow> digest_at ?H (files dup_after) (?P @ [n]) \<noteq> None \<longrightarrow>
              digest_at ?H (files dup_after) (?P @ [n]) \<noteq> digest_at ?H (files dup_after) (?P @ [m]))
         \<and> (\<forall>n. digest_at ?H (files dup_world) (?P @ [n]) \<noteq> None \<longrightarrow>
              lookup (files dup_after) (?P @ [n]) =
                (if list_ex (\<lambda>m. digest_at ?H (files dup_world) (?P @ [m])
                                   = digest_at ?H (files dup_world) (?P @ [n]))
                      (listed_before (files dup_world) ?P n)
                 then None else lookup (files dup_world) (?P @ [n])))"
    by auto
  have dx: "digest_at ?H (files dup_after) (?P @ [''x.pdf'']) \<noteq> None" by code_simp
  have ne: "''x.pdf'' \<noteq> ''y.pdf''" by simp
  from t ne dx have 1: "digest_at ?H (files dup_after) (?P @ [''x.pdf''])
       \<noteq> digest_at ?H (files dup_after) (?P @ [''y.pdf''])" by blast
  have dz: "digest_at ?H (files dup_world) (?P @ [''z.pdf'']) \<noteq> None" by code_simp
  have ez: "list_ex (\<lambda>m. digest_at ?H (files dup_world) (?P @ [m])
                           = digest_at ?H (files dup_world) (?P @ [''z.pdf'']))
              (listed_before (files dup_world) ?P ''z.pdf'')" by code_simp
  from t dz have "lookup (files dup_after) (?P @ [''z.pdf'']) =
       (if list_ex (\<lambda>m. digest_at ?H (files dup_world) (?P @ [m])
                           = digest_at ?H (files dup_world) (?P @ [''z.pdf'']))
              (listed_before (files dup_world) ?P ''z.pdf'')
        then None else lookup (files dup_world) (?P @ [''z.pdf'']))" by blast
  with ez have 2: "lookup (files dup_after) (?P @ [''z.pdf'']) = None" by simp
  have dxx: "digest_at ?H (files dup_world) (?P @ [''x.pdf'']) \<noteq> None" by code_simp
  have ex: "\<not> list_ex (\<lambda>m. digest_at ?H (files dup_world) (?P @ [m])
                           = digest_at ?H (files dup_world) (?P @ [''x.pdf'']))
              (listed_before (files dup_world) ?P ''x.pdf'')" by code_simp
  have lx: "lookup (files dup_world) (?P @ [''x.pdf'']) = Some (File ''S'' True False)" by code_simp
  from t dxx have "lookup (files dup_after) (?P @ [''x.pdf'']) =
       (if list_ex (\<lambda>m. digest_at ?H (files dup_world) (?P @ [m])
                           = digest_at ?H (files dup_world) (?P @ [''x.pdf'']))
              (listed_before (files dup_world) ?P ''x.pdf'')
        then None else lookup (files dup_world) (?P @ [''x.pdf'']))" by blast
  with ex lx have 3: "lookup (files dup_after) (?P @ [''x.pdf'']) = Some (File ''S'' True False)"
    by simp
  from w sc st r 1 2 3 show ?thesis by blast
qed

text \<open>
  The claim as it stands fails for a folder that holds the open log file. The program
  was started in the folder \<^verbatim>\<open>docs\<close>, so loading the module has created the log file
  there. Before the stage the log file and \<^verbatim>\<open>e.pdf\<close> are both empty, so they have the
  same digest, and the log file is listed later. The pass removes \<^verbatim>\<open>b.pdf\<close> and logs it;
  when it reaches the log file, that file holds the record and its digest is a new one,
  so it is kept: a later-listed file of a group of equal digest survives.
\<close>

theorem dedup_keeps_first_listed_counterexample:
  "configure_logging [''tmp'', ''src'', ''docs''] live_base = Inr (files live_world)
   \<and> remove_duplicates noon (\<lambda>c. c) [''tmp'', ''src'', ''docs''] [(''docs'', [''.pdf''])]
        ''/tmp/src'' live_world = Inr live_after
   \<and> folder_dir [''tmp'', ''src'', ''docs''] ''/tmp/src'' ''docs'' = [''tmp'', ''src'', ''docs'']
   \<and> digest_at (\<lambda>c. c) (files live_world) [''tmp'', ''src'', ''docs'', ''e.pdf''] = Some []
   \<and> digest_at (\<lambda>c. c) (files live_world) [''tmp'', ''src'', ''docs'', ''4NSIKfilefix.log'']
       = Some []
   \<and> listed_before (files live_world) [''tmp'', ''src'', ''docs''] ''4NSIKfilefix.log''
       = [''a.pdf'', ''b.pdf'', ''e.pdf'']
   \<and> lookup (files live_after) [''tmp'', ''src'', ''docs'', ''e.pdf''] = Some (File [] True False)
   \<and> lookup (files live_after) [''tmp'', ''src'', ''docs'', ''4NSIKfilefix.log'']
       = Some (File (''12:00 - INFO - Removed duplicate file b.pdf from docs'' @ [CHR 0x0A])
                 True True)"
  by code_simp

text \<open>
  Claim C3, as amended. No stage catches an exception, so a failure at one item is not
  isolated. If, after the organize stage, the folder of a rule holds a regular file that
  cannot be read, then the deduplicate stage ends with an error and the run ends with the
  same error in the same state, so the cleanup stage is not run. In that state every
  entry of the file system is as it was after the organize stage (the open log file
  having gained the records logged since), with the only possible exception of readable
  regular files directly inside the folders of the rules up to and including this one,
  and inside this folder only of those listed before the unreadable file. So the
  unreadable file is kept, no file listed after it has been looked at, and no folder of a
  later rule has been visited. The pass over the folder itself, when the folder is a
  directory, ends with \<^verbatim>\<open>PermissionError\<close> and has changed nothing but files listed
  before the unreadable one.
\<close>

theorem unreadable_file_aborts_run:
  assumes "cfg_folders cfg = Some rules" and "cfg_download_dir cfg = Some d"
    and "rules = pre @ (folder, exts) # post"
    and "organize_files asctime cwd rules d w = Inr (w1, counts)"
    and "wf_fs (files w)" and "plain_path cwd"
    and "lookup (files w1) (folder_dir cwd d folder @ [x]) = Some (File c False l)"
    and "in_scope d rules"
  shows "(\<exists>e w'. remove_duplicates asctime H cwd rules d w1 = Inl (e, w')
             \<and> main asctime H cwd cfg w = Inl (e, w')
             \<and> (\<exists>evs. log w' = log w1 @ evs)
             \<and> (\<exists>c'. lookup (files w') (folder_dir cwd d folder @ [x]) = Some (File c' False l))
             \<and> (\<forall>q. q = []
                     \<or> butlast q \<notin> folder_dir cwd d ` fst ` set (pre @ [(folder, exts)])
                     \<or> \<not> readable_file (files w1) q
                     \<or> (butlast q = folder_dir cwd d folder \<and>
                          last q \<notin> set (listed_before (files w1) (folder_dir cwd d folder) x))
                   \<longrightarrow> lookup (files w') q
                         = map_option (appended (written asctime w1 w')) (lookup (files w1) q)))
       \<and> (is_dir (files w1) (folder_dir cwd d folder) \<longrightarrow>
            (\<exists>w'. dedup_folder asctime H cwd d folder w1 = Inl (PermissionError, w')
               \<and> (\<forall>q. \<not> (\<exists>n\<in>set (listed_before (files w1) (folder_dir cwd d folder) x).
                             q = folder_dir cwd d folder @ [n])
                     \<longrightarrow> lookup (files w') q
                           = map_option (appended (written asctime w1 w')) (lookup (files w1) q))))"
proof -
  let ?X = "folder_dir cwd d folder"
  have wf1: "wf_fs (files w1)" by (rule organize_files_wf[OF assms(4-6)])
  from assms(7) have ux: "\<exists>c l. lookup (files w1) (?X @ [x]) = Some (File c False l)" by blast
  from remove_duplicates_stops[OF wf1 ux, of asctime H pre exts post] obtain e w' where
    r: "remove_duplicates asctime H cwd rules d w1 = Inl (e, w')"
    and ol: "only_lost asctime w1
             (\<lambda>k. k \<noteq> [] \<and> butlast k \<in> folder_dir cwd d ` fst ` set (pre @ [(folder, exts)])
                   \<and> readable_file (files w1) k
                   \<and> (butlast k = ?X \<longrightarrow> last k \<in> set (listed_before (files w1) ?X x))) w'"
    unfolding assms(3) by blast
  have m: "main asctime H cwd cfg w = Inl (e, w')"
    using assms(1,2,4) r by (simp add: main_def)
  have k: "lookup (files w') q = map_option (appended (written asctime w1 w')) (lookup (files w1) q)"
    if "q = [] \<or> butlast q \<notin> folder_dir cwd d ` fst ` set (pre @ [(folder, exts)])
        \<or> \<not> readable_file (files w1) q
        \<or> (butlast q = ?X \<and> last q \<notin> set (listed_before (files w1) ?X x))" for q
    by (rule only_lost_keeps[OF ol]) (use that in blast)
  have "lookup (files w') (?X @ [x])
        = map_option (appended (written asctime w1 w')) (lookup (files w1) (?X @ [x]))"
    by (rule k) (simp add: assms(7))
  then have kx: "\<exists>c'. lookup (files w') (?X @ [x]) = Some (File c' False l)"
    by (simp add: assms(7))
  have 2: "\<exists>w'. dedup_folder asctime H cwd d folder w1 = Inl (PermissionError, w')
               \<and> (\<forall>q. \<not> (\<exists>n\<in>set (listed_before (files w1) ?X x). q = ?X @ [n])
                     \<longrightarrow> lookup (files w') q
                           = map_option (appended (written asctime w1 w')) (lookup (files w1) q))"
    if "is_dir (files w1) ?X"
  proof -
    from dedup_folder_stops[OF wf1 ux, of asctime H] that obtain w2 where
      f: "dedup_folder asctime H cwd d folder w1 = Inl (PermissionError, w2)"
      and ol2: "only_lost asctime w1
               (\<lambda>k. \<exists>n\<in>set (listed_before (files w1) ?X x). k = ?X @ [n] \<and> readable_file (files w1) k)
               w2"
      by blast
    have "lookup (files w2) q = map_option (appended (written asctime w1 w2)) (lookup (files w1) q)"
      if "\<not> (\<exists>n\<in>set (listed_before (files w1) ?X x). q = ?X @ [n])" for q
      by (rule only_lost_keeps[OF ol2]) (use that in blast)
    with f show ?thesis by blast
  qed
  from only_lost_log[OF ol] have lg: "\<exists>evs. log w' = log w1 @ evs" .
  from r m lg kx k 2 show ?thesis by blast
qed

theorem unreadable_file_aborts_run_witness:
  "cfg_folders ex_cfg = Some ex_rules \<and> cfg_download_dir ex_cfg = Some ''/tmp/src''
   \<and> ex_rules = [(''images'', [''.jpg'', ''.png''])] @ (''docs'', [''.pdf'']) # []
   \<and> organize_files noon [] ex_rules ''/tmp/src'' locked_world = Inr (locked_after, [])
   \<and> wf_fs (files locked_world) \<and> plain_path [] \<and> in_scope ''/tmp/src'' ex_rules
   \<and> lookup (files locked_after) (folder_dir [] ''/tmp/src'' ''docs'' @ [''a.pdf''])
       = Some (File ''X'' False False)
   \<and> is_dir (files locked_after) (folder_dir [] ''/tmp/src'' ''docs'')
   \<and> remove_duplicates noon (\<lambda>c. c) [] ex_rules ''/tmp/src'' locked_after
       = Inl (PermissionError, locked_after)
   \<and> main noon (\<lambda>c. c) [] ex_cfg locked_world = Inl (PermissionError, locked_after)
   \<and> lookup (files locked_after) [''tmp'', ''src'', ''docs'', ''c.pdf'']
       = Some (File ''Y'' True False)
   \<and> (\<exists>w'. dedup_folder noon (\<lambda>c. c) [] ''/tmp/src'' ''docs'' locked_after
             = Inl (PermissionError, w'))"
proof -
  let ?X = "folder_dir [] ''/tmp/src'' ''docs''"
  let ?q = "[''tmp'', ''src'', ''docs'', ''c.pdf'']"
  have a: "cfg_folders ex_cfg = Some ex_rules" by code_simp
  have b: "cfg_download_dir ex_cfg = Some ''/tmp/src''" by code_simp
  have s: "ex_rules = [(''images'', [''.jpg'', ''.png''])] @ (''docs'', [''.pdf'']) # []"
    by code_simp
  have r: "organize_files noon [] ex_rules ''/tmp/src'' locked_world = Inr (locked_after, [])"
    by code_simp
  have w: "wf_fs (files locked_world)" by code_simp
  have p: "plain_path []" by code_simp
  have sc: "in_scope ''/tmp/src'' ex_rules" by code_simp
  have l: "lookup (files locked_after) (?X @ [''a.pdf'']) = Some (File ''X'' False False)"
    by code_simp
  have d: "is_dir (files locked_after) ?X" by code_simp
  have rd: "remove_duplicates noon (\<lambda>c. c) [] ex_rules ''/tmp/src'' locked_after
            = Inl (PermissionError, locked_after)"
    by code_simp
  have after: "butlast ?q = ?X \<and> last ?q \<notin> set (listed_before (files locked_after) ?X ''a.pdf'')"
    by code_simp
  have old: "lookup (files locked_after) ?q = Some (File ''Y'' True False)" by code_simp
  note t = unreadable_file_aborts_run[OF a b s r w p l sc, where H="\<lambda>c. c"]
  from t rd have m: "main noon (\<lambda>c. c) [] ex_cfg locked_world = Inl (PermissionError, locked_after)"
    by auto
  from t rd after have "lookup (files locked_after) ?q
        = map_option (appended (written noon locked_after locked_after)) (lookup (files locked_after) ?q)"
    by auto
  with old have k: "lookup (files locked_after) ?q = Some (File ''Y'' True False)" by simp
  from t d have f: "\<exists>w'. dedup_folder noon (\<lambda>c. c) [] ''/tmp/src'' ''docs'' locked_after
             = Inl (PermissionError, w')"
    by blast
  from a b s r w p sc l d rd m k f show ?thesis by blast
qed

text \<open>
  The claim as it stands fails: in this run the pass over \<^verbatim>\<open>docs\<close> stops at the
  unreadable \<^verbatim>\<open>a.pdf\<close> and the run ends with \<^verbatim>\<open>PermissionError\<close>. The loop did not go
  on to the next item (\<^verbatim>\<open>c.pdf\<close>, a duplicate of \<^verbatim>\<open>b.pdf\<close>, is still there) and the
  cleanup stage did not run (the empty folder \<^verbatim>\<open>images\<close> is still there).
\<close>

theorem unreadable_file_aborts_run_counterexample:
  "main noon (\<lambda>c. c) [] ex_cfg locked_world = Inl (PermissionError, locked_after)
   \<and> remove_duplicates noon (\<lambda>c. c) [] ex_rules ''/tmp/src'' locked_after
       = Inl (PermissionError, locked_after)
   \<and> lookup (files locked_after) [''tmp'', ''src'', ''docs'', ''b.pdf''] = Some (File ''Y'' True False)
   \<and> lookup (files locked_after) [''tmp'', ''src'', ''docs'', ''c.pdf''] = Some (File ''Y'' True False)
   \<and> is_dir (files locked_after) [''tmp'', ''src'', ''images'']
   \<and> names_in (files locked_after) [''tmp'', ''src'', ''images''] = []"
  by code_simp

section \<open>Claims about the cleanup stage\<close>

text \<open>
  Claim C7. When the scanned directory can be listed, the cleanup stage returns, and the
  file system it leaves is the one it found without exactly those entries directly
  inside the scanned directory that are directories with no entry at the time of the
  scan. Every other entry keeps its place: directories that hold a file or a directory,
  and everything below the first level, where an empty directory is neither looked at
  nor removed, also when its parent is. One record is logged for each directory removed,
  in the order of the listing; these records are written to the open log file, and
  nothing else changes in any entry.
\<close>

theorem cleanup_removes_exactly_empty_dirs:
  assumes "wf_fs (files w)" and "d \<noteq> []" and "is_dir (files w) (source_dir cwd d)"
    and "dotdot_free d"
  shows "\<exists>w'. clean_up_empty_folders asctime cwd d w = Inr w' \<and>
           log w' = log w @ map RemovedEmptyFolder
                      (filter (\<lambda>n. empty_dir (files w) (source_dir cwd d @ [n]))
                         (names_in (files w) (source_dir cwd d))) \<and>
           files w' = emit (written asctime w w')
             (filter (\<lambda>(k, e). \<not> (k \<noteq> [] \<and> butlast k = source_dir cwd d \<and> e = Dir
                                   \<and> names_in (files w) k = [])) (files w))"
proof -
  let ?D = "source_dir cwd d"
  let ?names = "names_in (files w) ?D"
  let ?K = "{k. \<exists>n\<in>set ?names. k = ?D @ [n] \<and> empty_dir (files w) k}"
  from cleanup_loop_result[OF wf_names_plain[OF assms(1), of ?D] wf_names_distinct[OF assms(1), of ?D],
      where asctime=asctime and cwd=cwd and d=d and w=w]
  obtain w' where
    w': "cleanup_loop asctime cwd d ?names w = Inr w'"
    "log w' = log w @ map RemovedEmptyFolder (filter (\<lambda>n. empty_dir (files w) (?D @ [n])) ?names)"
    "files w' = emit (written asctime w w') (AList.restrict (- ?K) (files w))"
    by blast
  have run: "clean_up_empty_folders asctime cwd d w = Inr w'"
    using assms(2,3) w'(1)
    by (simp add: clean_up_empty_folders_def os_listdir_str_def os_listdir_dir)
  have "AList.restrict (- ?K) (files w)
      = filter (\<lambda>(k, e). \<not> (k \<noteq> [] \<and> butlast k = ?D \<and> e = Dir \<and> names_in (files w) k = []))
          (files w)"
    unfolding AList.restrict_eq
  proof (rule filter_cong[OF refl], clarify)
    fix k e assume mem: "(k, e) \<in> set (files w)"
    with assms(1) have k: "k \<noteq> []" and lk: "lookup (files w) k = Some e"
      by (auto simp: wf_fs_def list_all_iff lookup_def)
    have "k \<in> ?K \<longleftrightarrow> butlast k = ?D \<and> e = Dir \<and> names_in (files w) k = []"
    proof
      assume "k \<in> ?K"
      with lk show "butlast k = ?D \<and> e = Dir \<and> names_in (files w) k = []"
        by (auto simp: empty_dir_def is_dir_def)
    next
      assume a: "butlast k = ?D \<and> e = Dir \<and> names_in (files w) k = []"
      with k have "k = ?D @ [last k]" by (metis append_butlast_last_id)
      moreover from this mem have "last k \<in> set ?names"
        by (auto simp: names_in_mem intro: rev_image_eqI)
      ultimately show "k \<in> ?K" using a lk by (auto simp: empty_dir_def is_dir_def)
    qed
    with k show "(k \<in> - ?K) = (\<not> (k \<noteq> [] \<and> butlast k = ?D \<and> e = Dir \<and> names_in (files w) k = []))"
      by simp
  qed
  with run w'(2,3) show ?thesis by simp
qed

theorem cleanup_removes_exactly_empty_dirs_witness:
  "wf_fs (files clean_log_world) \<and> ''/tmp/src'' \<noteq> [] \<and> dotdot_free ''/tmp/src''
   \<and> is_dir (files clean_log_world) (source_dir [''tmp'', ''src''] ''/tmp/src'')
   \<and> (\<exists>w'. clean_up_empty_folders noon [''tmp'', ''src''] ''/tmp/src'' clean_log_world = Inr w'
         \<and> log w' = [RemovedEmptyFolder ''images'']
         \<and> files w' = clean_log_after)"
proof -
  let ?cwd = "[''tmp'', ''src'']"
  have w: "wf_fs (files clean_log_world)" by code_simp
  have n: "''/tmp/src'' \<noteq> []" by simp
  have d: "is_dir (files clean_log_world) (source_dir ?cwd ''/tmp/src'')" by code_simp
  have sd: "dotdot_free ''/tmp/src''" by code_simp
  have g: "log clean_log_world @ map RemovedEmptyFolder
             (filter (\<lambda>n. empty_dir (files clean_log_world) (source_dir ?cwd ''/tmp/src'' @ [n]))
                (names_in (files clean_log_world) (source_dir ?cwd ''/tmp/src'')))
           = [RemovedEmptyFolder ''images'']"
    by code_simp
  have t: "log_text noon (length (log clean_log_world))
             (drop (length (log clean_log_world)) [RemovedEmptyFolder ''images''])
           = ''12:00 - INFO - Removed empty folder images'' @ [CHR 0x0A]"
    by code_simp
  have f: "emit (''12:00 - INFO - Removed empty folder images'' @ [CHR 0x0A])
             (filter (\<lambda>(k, e). \<not> (k \<noteq> [] \<and> butlast k = source_dir ?cwd ''/tmp/src'' \<and> e = Dir
                                    \<and> names_in (files clean_log_world) k = []))
                (files clean_log_world))
           = clean_log_after"
    by code_simp
  from cleanup_removes_exactly_empty_dirs[OF w n d sd, of noon] obtain w' where
    r: "clean_up_empty_folders noon ?cwd ''/tmp/src'' clean_log_world = Inr w'"
    and lg: "log w' = [RemovedEmptyFolder ''images'']"
    and fl: "files w' = emit (written noon clean_log_world w')
               (filter (\<lambda>(k, e). \<not> (k \<noteq> [] \<and> butlast k = source_dir ?cwd ''/tmp/src'' \<and> e = Dir
                                      \<and> names_in (files clean_log_world) k = []))
                  (files clean_log_world))"
    unfolding g by blast
  have "written noon clean_log_world w' = ''12:00 - INFO - Removed empty folder images'' @ [CHR 0x0A]"
    unfolding written_def lg by (rule t)
  with fl f have "files w' = clean_log_after" by simp
  with r lg w n d sd show ?thesis by blast
qed

section \<open>Claims about the whole run\<close>

text \<open>
  Claim C8, as amended. Take a configured folder that is a direct child of the download
  directory (its name is a single path component), that did not exist and had no entry
  before the run, into which no file is routed under any configured name, and inside
  which no configured folder lies. In a full run that returns, the organize stage creates
  it as an empty directory, and after the cleanup stage it does not exist.
\<close>

theorem unused_folder_removed:
  assumes cfg: "cfg_folders cfg = Some rules" "cfg_download_dir cfg = Some d"
    and run: "main asctime H cwd cfg w = Inr (w', counts)"
    and wf: "wf_fs (files w)" and cwd: "plain_path cwd"
    and mem: "(folder, exts) \<in> set rules"
    and single: "plain_name folder"
    and new: "\<not> path_exists (files w) (source_dir cwd d @ [folder])"
    and empty: "names_in (files w) (source_dir cwd d @ [folder]) = []"
    and unused: "list_all (\<lambda>(f, exts). folder_dir cwd d f = source_dir cwd d @ [folder]
                              \<longrightarrow> counter_get counts f = 0) rules"
    and inside: "list_all (\<lambda>(f, exts). \<not> strict_prefix (source_dir cwd d @ [folder])
                                              (folder_dir cwd d f)) rules"
    and "in_scope d rules"
  shows "(\<exists>w1. organize_files asctime cwd rules d w = Inr (w1, counts)
             \<and> empty_dir (files w1) (source_dir cwd d @ [folder]))
       \<and> \<not> path_exists (files w') (source_dir cwd d @ [folder])"
proof -
  let ?D = "source_dir cwd d"
  let ?F = "?D @ [folder]"
  from run cfg obtain w1 w2 where
    org: "organize_files asctime cwd rules d w = Inr (w1, counts)"
    and ded: "remove_duplicates asctime H cwd rules d w1 = Inr w2"
    and cln: "clean_up_empty_folders asctime cwd d w2 = Inr w'"
    by (auto elim!: main_Inr)
  have child: "folder_dir cwd d folder = ?F"
    using single by (rule plain_folder_is_child)
  from mem have fin: "folder \<in> fst ` set rules" by force
  from org wf cwd obtain fs1 A where mk: "make_folders cwd d rules (files w) = Inr fs1"
    and g: "grows (files w) A fs1"
    and A: "A = (\<Union>f\<in>fst ` set rules. set (prefixes (folder_dir cwd d f)))"
    and loop: "organize_loop asctime cwd rules d (names_in fs1 ?D) (w\<lparr>files := fs1\<rparr>) [] = Inr (w1, counts)"
    and pl: "list_all plain_name (names_in fs1 ?D)"
    and di: "distinct (names_in fs1 ?D)"
    by (rule organize_files_Inr)
  \<comment> \<open>after the folders loop\<close>
  from make_folders_exist[OF mk fin] child obtain e where e: "lookup fs1 ?F = Some e"
    by (auto simp: path_exists_def)
  from new have "lookup (files w) ?F = None" by (simp add: path_exists_def)
  from grows_lookup_new[OF g this e] e have dir1: "is_dir fs1 ?F" by (simp add: is_dir_def)
  have emp1: "names_in fs1 ?F = []"
  proof (rule ccontr)
    assume "names_in fs1 ?F \<noteq> []"
    then obtain n where "n \<in> set (names_in fs1 ?F)" by (cases "names_in fs1 ?F") auto
    then have k: "?F @ [n] \<in> fst ` set fs1" by (simp add: names_in_mem)
    from grows_keys[OF g k] show False
    proof
      assume "?F @ [n] \<in> fst ` set (files w)"
      then have "n \<in> set (names_in (files w) ?F)" by (simp add: names_in_mem)
      with empty show False by simp
    next
      assume "?F @ [n] \<in> A"
      then obtain f where f: "f \<in> fst ` set rules" "prefix (?F @ [n]) (folder_dir cwd d f)"
        unfolding A by (auto simp: in_set_prefixes)
      from prefix_snoc_strict[OF f(2)] f(1) inside show False
        by (force simp: list_all_iff)
    qed
  qed
  \<comment> \<open>after the moving loop\<close>
  have nor: "\<not> routed cwd rules d fs1 n f"
    if "n \<in> set (names_in fs1 ?D)" "folder_dir cwd d f = ?F" "f \<in> fst ` set rules" for n f
  proof -
    from that(2,3) unused have "counter_get counts f = 0" by (force simp: list_all_iff)
    moreover have "counter_get counts f
        = length (filter (\<lambda>n. routed cwd rules d fs1 n f) (names_in fs1 ?D))"
      using organize_loop_counts[OF loop pl di, of f] by (simp add: counter_get_def)
    ultimately show ?thesis using that(1) by (auto simp: filter_empty_conv)
  qed
  have dirA: "is_dir (files w1) ?F"
    using organize_loop_is_dir[OF loop pl, of ?F] dir1 by simp
  have empA: "names_in (files w1) ?F = []"
  proof (rule ccontr)
    assume "names_in (files w1) ?F \<noteq> []"
    then obtain n where "n \<in> set (names_in (files w1) ?F)"
      by (cases "names_in (files w1) ?F") auto
    then have k: "?F @ [n] \<in> fst ` set (files w1)" by (simp add: names_in_mem)
    from organize_loop_keys[OF loop pl di k] show False
    proof
      assume "?F @ [n] \<in> fst ` set (files (w\<lparr>files := fs1\<rparr>))"
      then have "n \<in> set (names_in fs1 ?F)" by (simp add: names_in_mem)
      with emp1 show False by simp
    next
      assume "\<exists>m f. m \<in> set (names_in fs1 ?D) \<and> routed cwd rules d (files (w\<lparr>files := fs1\<rparr>)) m f
                \<and> ?F @ [n] = landing (files (w\<lparr>files := fs1\<rparr>)) (folder_dir cwd d f @ [m]) m"
      then obtain m f where m: "m \<in> set (names_in fs1 ?D)" "routed cwd rules d fs1 m f"
        and l: "?F @ [n] = landing fs1 (folder_dir cwd d f @ [m]) m" by auto
      from m(2) have fr: "f \<in> fst ` set rules" by (auto dest: first_match_mem)
      show False
      proof (cases "is_dir fs1 (folder_dir cwd d f @ [m])")
        case False
        with l have "folder_dir cwd d f = ?F" by (simp add: landing_def)
        from nor[OF m(1) this fr] m(2) show False by simp
      next
        case True
        with l have "?F @ [n] = (folder_dir cwd d f @ [m]) @ [m]" by (simp add: landing_def)
        then have "?F = folder_dir cwd d f @ [m]" by simp
        then have "folder_dir cwd d f = ?D" "m = folder" by auto
        with m(2) dir1 show False by (simp add: is_file_def is_dir_def)
      qed
    qed
  qed
  have 1: "empty_dir (files w1) ?F" using dirA empA by (simp add: empty_dir_def)
  \<comment> \<open>after the deduplicate stage\<close>
  have wf1: "wf_fs (files w1)" by (rule organize_files_wf[OF org wf cwd])
  from remove_duplicates_only_lost[OF wf1, of asctime cwd d rules H] ded
  have ol: "only_lost asctime w1
              (\<lambda>k. k \<noteq> [] \<and> butlast k \<in> folder_dir cwd d ` fst ` set rules
                    \<and> readable_file (files w1) k) w2"
    by simp
  have wf2: "wf_fs (files w2)" by (rule only_lost_wf[OF ol wf1])
  have "is_dir (files w2) ?F = is_dir (files w1) ?F"
    by (rule only_lost_is_dir[OF ol]) (use dirA in \<open>auto simp: is_dir_def\<close>)
  with dirA have dir2: "is_dir (files w2) ?F" by simp
  have emp2: "names_in (files w2) ?F = []"
    using only_lost_names[OF ol, of ?F] empA by simp
  \<comment> \<open>the cleanup stage\<close>
  have "folder \<in> set (names_in (files w2) ?D)"
    using dir2 by (auto simp: names_in_mem is_dir_def lookup_def dest!: map_of_SomeD intro: rev_image_eqI)
  with dir2 emp2 have "?F \<in> {k. \<exists>n\<in>set (names_in (files w2) ?D).
                                k = ?D @ [n] \<and> empty_dir (files w2) k}"
    by (auto simp: empty_dir_def)
  then have "lookup (files w') ?F = None"
    unfolding clean_up_restrict[OF cln wf2] by (simp add: lookup_emit lookup_restrict)
  with org 1 show ?thesis by (auto simp: path_exists_def)
qed

theorem unused_folder_removed_witness:
  "cfg_folders ex_cfg = Some ex_rules \<and> cfg_download_dir ex_cfg = Some ''/tmp/src''
   \<and> main noon (\<lambda>c. c) [] ex_cfg dot_world = Inr (dot_cleaned, [])
   \<and> wf_fs (files dot_world) \<and> plain_path []
   \<and> (''docs'', [''.pdf'']) \<in> set ex_rules \<and> plain_name ''docs''
   \<and> \<not> path_exists (files dot_world) (source_dir [] ''/tmp/src'' @ [''docs''])
   \<and> names_in (files dot_world) (source_dir [] ''/tmp/src'' @ [''docs'']) = []
   \<and> list_all (\<lambda>(f, exts). folder_dir [] ''/tmp/src'' f = source_dir [] ''/tmp/src'' @ [''docs'']
                    \<longrightarrow> counter_get [] f = 0) ex_rules
   \<and> list_all (\<lambda>(f, exts). \<not> strict_prefix (source_dir [] ''/tmp/src'' @ [''docs''])
                                  (folder_dir [] ''/tmp/src'' f)) ex_rules
   \<and> in_scope ''/tmp/src'' ex_rules
   \<and> (\<exists>w1. organize_files noon [] ex_rules ''/tmp/src'' dot_world = Inr (w1, [])
           \<and> empty_dir (files w1) (source_dir [] ''/tmp/src'' @ [''docs'']))
   \<and> \<not> path_exists (files dot_cleaned) (source_dir [] ''/tmp/src'' @ [''docs''])"
proof -
  have a: "cfg_folders ex_cfg = Some ex_rules" by code_simp
  have b: "cfg_download_dir ex_cfg = Some ''/tmp/src''" by code_simp
  have r: "main noon (\<lambda>c. c) [] ex_cfg dot_world = Inr (dot_cleaned, [])" by code_simp
  have w: "wf_fs (files dot_world)" by code_simp
  have p: "plain_path []" by code_simp
  have m: "(''docs'', [''.pdf'']) \<in> set ex_rules" by code_simp
  have s: "plain_name ''docs''" by code_simp
  have n: "\<not> path_exists (files dot_world) (source_dir [] ''/tmp/src'' @ [''docs''])"
    by code_simp
  have e: "names_in (files dot_world) (source_dir [] ''/tmp/src'' @ [''docs'']) = []"
    by code_simp
  have u: "list_all (\<lambda>(f, exts). folder_dir [] ''/tmp/src'' f = source_dir [] ''/tmp/src'' @ [''docs'']
                    \<longrightarrow> counter_get [] f = 0) ex_rules"
    by code_simp
  have i: "list_all (\<lambda>(f, exts). \<not> strict_prefix (source_dir [] ''/tmp/src'' @ [''docs''])
                                  (folder_dir [] ''/tmp/src'' f)) ex_rules"
    by code_simp
  have sc: "in_scope ''/tmp/src'' ex_rules" by code_simp
  from unused_folder_removed[OF a b r w p m s n e u i sc] a b r w p m s n e u i sc
  show ?thesis by blast
qed

text \<open>
  Without the restriction to direct children the claim fails: the folder \<^verbatim>\<open>docs/pdf\<close>
  is created with its parent, nothing is routed into it, and the cleanup stage, which
  looks at the first level only, finds \<^verbatim>\<open>docs\<close> not empty and leaves both.
\<close>

theorem unused_folder_removed_counterexample:
  "main noon (\<lambda>c. c) [] nested_cfg dot_world = Inr (nested_after, [])
   \<and> \<not> path_exists (files dot_world) (folder_dir [] ''/tmp/src'' ''docs/pdf'')
   \<and> names_in (files dot_world) (folder_dir [] ''/tmp/src'' ''docs/pdf'') = []
   \<and> counter_get [] ''docs/pdf'' = 0
   \<and> folder_dir [] ''/tmp/src'' ''docs/pdf'' = [''tmp'', ''src'', ''docs'', ''pdf'']
   \<and> is_dir (files nested_after) (folder_dir [] ''/tmp/src'' ''docs/pdf'')"
  by code_simp

text \<open>
  Claim C4, as amended. The program does not validate its configuration and has no
  \<^verbatim>\<open>ConfigError\<close>. If the key \<^verbatim>\<open>folders\<close> or the key \<^verbatim>\<open>download_dir\<close> is missing,
  the run ends with \<^verbatim>\<open>KeyError\<close> and the file system is as it was. If \<^verbatim>\<open>folders\<close> is
  empty and \<^verbatim>\<open>download_dir\<close> is not an existing directory, the run ends with
  \<^verbatim>\<open>FileNotFoundError\<close> or \<^verbatim>\<open>NotADirectoryError\<close> at the first listing and the file
  system is as it was.
\<close>

theorem missing_configuration_fails_early:
  "(cfg_folders cfg = None \<or> cfg_download_dir cfg = None
      \<longrightarrow> main asctime H cwd cfg w = Inl (KeyError, w))
   \<and> (cfg_folders cfg = Some [] \<and> cfg_download_dir cfg = Some d \<and> dotdot_free d
        \<and> \<not> is_dir (files w) (source_dir cwd d)
      \<longrightarrow> main asctime H cwd cfg w = Inl (FileNotFoundError, w)
          \<or> main asctime H cwd cfg w = Inl (NotADirectoryError, w))"
proof -
  have 1: "main asctime H cwd cfg w = Inl (KeyError, w)"
    if "cfg_folders cfg = None \<or> cfg_download_dir cfg = None"
    using that by (auto simp: main_def split: option.splits)
  have 2: "main asctime H cwd cfg w = Inl (FileNotFoundError, w)
          \<or> main asctime H cwd cfg w = Inl (NotADirectoryError, w)"
    if "cfg_folders cfg = Some []" "cfg_download_dir cfg = Some d"
      "\<not> is_dir (files w) (source_dir cwd d)"
    using organize_no_rules_unlisted[OF that(3), of asctime] that(1,2) by (auto simp: main_def)
  from 1 2 show ?thesis by blast
qed

theorem missing_configuration_fails_early_witness:
  "cfg_download_dir \<lparr>cfg_folders = Some ex_rules, cfg_download_dir = None\<rparr> = None
   \<and> main noon (\<lambda>c. c) [] \<lparr>cfg_folders = Some ex_rules, cfg_download_dir = None\<rparr> ex_world
       = Inl (KeyError, ex_world)
   \<and> cfg_folders empty_cfg = Some [] \<and> cfg_download_dir empty_cfg = Some ''/tmp/src''
   \<and> dotdot_free ''/tmp/src''
   \<and> \<not> is_dir (files bare_world) (source_dir [] ''/tmp/src'')
   \<and> main noon (\<lambda>c. c) [] empty_cfg bare_world
       = Inl (FileNotFoundError, bare_world)"
proof -
  let ?c = "\<lparr>cfg_folders = Some ex_rules, cfg_download_dir = None\<rparr>"
  let ?w = "bare_world"
  have a: "cfg_download_dir ?c = None" by simp
  from missing_configuration_fails_early[where cfg="?c" and H="\<lambda>c. c" and cwd="[]" and w=ex_world and asctime=noon] a
  have 1: "main noon (\<lambda>c. c) [] ?c ex_world = Inl (KeyError, ex_world)" by blast
  have b: "cfg_folders empty_cfg = Some []" by code_simp
  have c: "cfg_download_dir empty_cfg = Some ''/tmp/src''" by code_simp
  have s: "dotdot_free ''/tmp/src''" by code_simp
  have d: "\<not> is_dir (files ?w) (source_dir [] ''/tmp/src'')" by code_simp
  have n: "main noon (\<lambda>c. c) [] empty_cfg ?w \<noteq> Inl (NotADirectoryError, ?w)" by code_simp
  from missing_configuration_fails_early[where cfg=empty_cfg and d="''/tmp/src''" and w="?w"
      and cwd="[]" and H="\<lambda>c. c" and asctime=noon] b c s d
  have "main noon (\<lambda>c. c) [] empty_cfg ?w = Inl (FileNotFoundError, ?w)
        \<or> main noon (\<lambda>c. c) [] empty_cfg ?w = Inl (NotADirectoryError, ?w)" by blast
  with n have 2: "main noon (\<lambda>c. c) [] empty_cfg ?w = Inl (FileNotFoundError, ?w)" by blast
  from a 1 b c s d 2 show ?thesis by blast
qed

text \<open>
  The claim as it stands fails twice. With a download directory that does not exist and
  folders configured, the run returns: the organize stage creates the download directory
  together with the folders. With \<^verbatim>\<open>folders\<close> empty and the download directory present,
  the run returns too, and the cleanup stage removes an empty directory.
\<close>

theorem missing_configuration_fails_early_counterexample:
  "\<not> path_exists (files bare_world) (source_dir [] ''/tmp/src'')
   \<and> main noon (\<lambda>c. c) [] ex_cfg bare_world = Inr (bare_after, [])
   \<and> is_dir (files bare_after) [''tmp'', ''src'']
   \<and> cfg_folders empty_cfg = Some []
   \<and> main noon (\<lambda>c. c) [] empty_cfg clean_world = Inr (clean_after, [])
   \<and> is_dir (files clean_world) [''tmp'', ''src'', ''images'']
   \<and> \<not> path_exists (files clean_after) [''tmp'', ''src'', ''images'']"
  by code_simp


text \<open>
  Claim C9, as amended. When the download directory is the working directory of the
  process and no folder is named by the empty string, the two variants agree: their
  organize stages return the same result (state and counts, or error), and so do the
  full runs. The state includes the log file, to which both variants write the same
  records; the time stamps in them are the same when the clock readings are.
\<close>

theorem variants_agree_in_download_dir:
  assumes "cfg_folders cfg = Some rules" and "cfg_download_dir cfg = Some d"
    and here: "source_dir cwd d = cwd"
    and named: "list_all (\<lambda>(f, exts). f \<noteq> []) rules"
    and wf: "wf_fs (files w)" and cwd: "plain_path cwd"
    and "in_scope d rules"
  shows "t_organize_files asctime cwd rules d w = organize_files asctime cwd rules d w
       \<and> t_main asctime H cwd cfg w = main asctime H cwd cfg w"
proof -
  have o: "t_organize_files asctime cwd rules d w = organize_files asctime cwd rules d w"
    by (rule t_organize_files_eq[OF here])
  have "t_main asctime H cwd cfg w = main asctime H cwd cfg w"
  proof (cases "organize_files asctime cwd rules d w")
    case (Inl x)
    with o assms(1,2) show ?thesis by (simp add: t_main_def main_def)
  next
    case (Inr r)
    obtain w1 counts where r: "r = (w1, counts)" by (cases r)
    from Inr r have org: "organize_files asctime cwd rules d w = Inr (w1, counts)" by simp
    then have d: "d \<noteq> []"
      by (auto simp: organize_files_def os_listdir_str_def split: sum.splits if_splits)
    have wf1: "wf_fs (files w1)" by (rule organize_files_wf[OF org wf cwd])
    have dd: "t_remove_duplicates asctime H cwd rules w1 = remove_duplicates asctime H cwd rules d w1"
      by (rule t_remove_duplicates_eq[OF here named])
    show ?thesis
    proof (cases "remove_duplicates asctime H cwd rules d w1")
      case (Inl x)
      with o org dd assms(1,2) show ?thesis by (simp add: t_main_def main_def)
    next
      case (Inr w2)
      from remove_duplicates_wf[OF wf1, of asctime H cwd rules d] Inr
      have wf2: "wf_fs (files w2)" by simp
      from t_clean_up_eq[OF here d wf2] o org dd Inr assms(1,2) show ?thesis
        by (simp add: t_main_def main_def)
    qed
  qed
  with o show ?thesis by simp
qed

theorem variants_agree_in_download_dir_witness:
  "cfg_folders ex_cfg = Some ex_rules \<and> cfg_download_dir ex_cfg = Some ''/tmp/src''
   \<and> source_dir [''tmp'', ''src''] ''/tmp/src'' = [''tmp'', ''src'']
   \<and> list_all (\<lambda>(f, exts). f \<noteq> []) ex_rules
   \<and> wf_fs (files log_world) \<and> plain_path [''tmp'', ''src'']
   \<and> in_scope ''/tmp/src'' ex_rules
   \<and> organize_files noon [''tmp'', ''src''] ex_rules ''/tmp/src'' log_world
       = Inr (log_organized, [(''images'', 1)])
   \<and> t_organize_files noon [''tmp'', ''src''] ex_rules ''/tmp/src'' log_world
       = Inr (log_organized, [(''images'', 1)])
   \<and> t_main noon (\<lambda>c. c) [''tmp'', ''src''] ex_cfg log_world
       = main noon (\<lambda>c. c) [''tmp'', ''src''] ex_cfg log_world"
proof -
  have a: "cfg_folders ex_cfg = Some ex_rules" by code_simp
  have b: "cfg_download_dir ex_cfg = Some ''/tmp/src''" by code_simp
  have h: "source_dir [''tmp'', ''src''] ''/tmp/src'' = [''tmp'', ''src'']" by code_simp
  have n: "list_all (\<lambda>(f, exts). f \<noteq> []) ex_rules" by code_simp
  have w: "wf_fs (files log_world)" by code_simp
  have p: "plain_path [''tmp'', ''src'']" by code_simp
  have sc: "in_scope ''/tmp/src'' ex_rules" by code_simp
  have r: "organize_files noon [''tmp'', ''src''] ex_rules ''/tmp/src'' log_world
           = Inr (log_organized, [(''images'', 1)])"
    by code_simp
  from variants_agree_in_download_dir[OF a b h n w p sc, of noon "\<lambda>c. c"] r a b h n w p sc
  show ?thesis by simp
qed


text \<open>
  With a folder named by the empty string the variants differ: \<^verbatim>\<open>Path(download_dir) / ""\<close>
  is the download directory, which the first variant deduplicates and cleans, while the
  second variant calls \<^verbatim>\<open>os.listdir("")\<close>, which raises. The duplicate \<^verbatim>\<open>e.txt\<close> and the
  empty directory \<^verbatim>\<open>old\<close> are removed by the first and kept by the second.
\<close>

theorem variants_agree_in_download_dir_counterexample:
  "source_dir [''tmp'', ''src''] ''/tmp/src'' = [''tmp'', ''src'']
   \<and> configure_logging [''tmp'', ''src'']
         [([''tmp''], Dir), ([''tmp'', ''src''], Dir),
          ([''tmp'', ''src'', ''c.txt''], File ''CCC'' True False),
          ([''tmp'', ''src'', ''e.txt''], File ''CCC'' True False),
          ([''tmp'', ''src'', ''old''], Dir)] = Inr (files twin_world)
   \<and> main noon (\<lambda>c. c) [''tmp'', ''src''] blank_cfg twin_world = Inr (twin_first, [([], 2)])
   \<and> t_main noon (\<lambda>c. c) [''tmp'', ''src''] blank_cfg twin_world
       = Inl (FileNotFoundError, twin_second)
   \<and> \<not> path_exists (files twin_first) [''tmp'', ''src'', ''e.txt'']
   \<and> \<not> path_exists (files twin_first) [''tmp'', ''src'', ''old'']
   \<and> is_file (files twin_second) [''tmp'', ''src'', ''e.txt'']
   \<and> is_dir (files twin_second) [''tmp'', ''src'', ''old'']"
  by code_simp

end
